theory Spec2Isabelle
  imports Main
begin

section \<open>Python strings\<close>

text \<open>
  A Python \<open>str\<close> is a sequence of Unicode code points, so it is modelled as a list of
  naturals. \<open>lit\<close> turns an ASCII literal into such a list. The three dash glyphs of the
  source and the separators it names are given as abbreviations of their code points.
\<close>

type_synonym str = "nat list"

definition lit :: "string \<Rightarrow> str" where
  "lit s = map of_char s"

abbreviation HYPHEN :: nat where "HYPHEN \<equiv> 45"         \<comment> \<open>U+002D\<close>
abbreviation EN_DASH :: nat where "EN_DASH \<equiv> 8211"     \<comment> \<open>U+2013\<close>
abbreviation EM_DASH :: nat where "EM_DASH \<equiv> 8212"     \<comment> \<open>U+2014\<close>
abbreviation MINUS_SIGN :: nat where "MINUS_SIGN \<equiv> 8722" \<comment> \<open>U+2212\<close>
abbreviation LPAREN :: nat where "LPAREN \<equiv> 40"         \<comment> \<open>U+0028\<close>

text \<open>\<open>str.isspace\<close> of one code point: the white space of the Unicode database.\<close>

definition isspace :: "nat \<Rightarrow> bool" where
  "isspace c =
     ((9 \<le> c \<and> c \<le> 13) \<or> (28 \<le> c \<and> c \<le> 32) \<or> c = 133 \<or> c = 160 \<or> c = 5760 \<or>
      (8192 \<le> c \<and> c \<le> 8202) \<or> c = 8232 \<or> c = 8233 \<or> c = 8239 \<or> c = 8287 \<or>
      c = 12288)"

text \<open>\<open>s.strip()\<close>: leading and trailing white space removed.\<close>

definition py_strip :: "str \<Rightarrow> str" where
  "py_strip s = rev (dropWhile isspace (rev (dropWhile isspace s)))"

text \<open>
  \<open>s.lower()\<close>. The letters A to Z are mapped to a to z. Outside ASCII, exactly two code
  points have a lower case that contains an ASCII letter: U+0130 becomes i followed by
  U+0307, and U+212A (the Kelvin sign) becomes k. Every other code point is left as it is:
  where the library changes it, the result lies outside ASCII as well, and the program
  compares lower-cased strings with ASCII literals only.
\<close>

definition lower_cp :: "nat \<Rightarrow> str" where
  "lower_cp c =
     (if 65 \<le> c \<and> c \<le> 90 then [c + 32]
      else if c = 304 then [105, 775]
      else if c = 8490 then [107]
      else [c])"

definition py_lower :: "str \<Rightarrow> str" where
  "py_lower s = concat (map lower_cp s)"

text \<open>\<open>s.upper()\<close> on ASCII strings; it only builds inputs of the normalizer.\<close>

definition upper_cp :: "nat \<Rightarrow> nat" where
  "upper_cp c = (if 97 \<le> c \<and> c \<le> 122 then c - 32 else c)"

definition py_upper :: "str \<Rightarrow> str" where
  "py_upper s = map upper_cp s"

text \<open>\<open>s.startswith(p)\<close> and the substring test \<open>sub in s\<close>.\<close>

fun startswith :: "str \<Rightarrow> str \<Rightarrow> bool" where
  "startswith s [] = True"
| "startswith [] (p # ps) = False"
| "startswith (c # cs) (p # ps) = (c = p \<and> startswith cs ps)"

fun contains :: "str \<Rightarrow> str \<Rightarrow> bool" where
  "contains [] sub = (sub = [])"
| "contains (c # cs) sub = (startswith (c # cs) sub \<or> contains cs sub)"

text \<open>
  \<open>s.split(sep)\<close> for a separator of one code point, the only kind the program uses.
  The result always has at least one segment; the empty case of the inner \<open>case\<close> is
  never taken.
\<close>

fun py_split :: "nat \<Rightarrow> str \<Rightarrow> str list" where
  "py_split sep [] = [[]]"
| "py_split sep (c # cs) =
     (if c = sep then [] # py_split sep cs
      else (case py_split sep cs of
              [] \<Rightarrow> [[c]]
            | seg # segs \<Rightarrow> (c # seg) # segs))"

text \<open>
  \<open>re.sub\<close> with the bracketed class of the source and the en-dash as replacement.
  Inside the brackets the source writes em-dash, ASCII hyphen, minus sign, en-dash. A
  hyphen between two characters of a class denotes a range, so the class is the range
  U+2014 to U+2212 together with U+2013; the code point U+002D itself is not a member.
\<close>

definition dash_class :: "nat \<Rightarrow> bool" where
  "dash_class c = ((EM_DASH \<le> c \<and> c \<le> MINUS_SIGN) \<or> c = EN_DASH)"

definition re_sub_dash :: "str \<Rightarrow> str" where
  "re_sub_dash s = map (\<lambda>c. if dash_class c then EN_DASH else c) s"

section \<open>Errors\<close>

text \<open>
  Every exception the program can raise is a value. \<open>EmptyMonthName\<close> is
  \<open>ValueError("Empty month name")\<close>, \<open>UnrecognizedMonth name\<close> is
  \<open>ValueError("Unrecognized Nepali month name: 'name'")\<close>, \<open>KeyError\<close> is a failed dictionary
  lookup, the three \<open>...OutOfRange\<close> errors are the \<open>ValueError\<close>s of \<open>datetime.date\<close>, and
  \<open>OverflowError\<close> is raised by date arithmetic that leaves the supported years.
\<close>

datatype error =
    EmptyMonthName
  | UnrecognizedMonth str
  | KeyError str
  | YearOutOfRange int
  | MonthOutOfRange int
  | DayOutOfRange int
  | OverflowError

definition and_then :: "error + 'a \<Rightarrow> ('a \<Rightarrow> error + 'b) \<Rightarrow> error + 'b" where
  "and_then r f = (case r of Inl e \<Rightarrow> Inl e | Inr x \<Rightarrow> f x)"

fun traverse :: "('a \<Rightarrow> error + 'b) \<Rightarrow> 'a list \<Rightarrow> error + 'b list" where
  "traverse f [] = Inr []"
| "traverse f (x # xs) =
     and_then (f x) (\<lambda>y. and_then (traverse f xs) (\<lambda>ys. Inr (y # ys)))"

section \<open>The month table and the normalizer\<close>

definition nepali_to_english_dates_conversion :: "(str \<times> int \<times> int) list" where
  "nepali_to_english_dates_conversion =
     [(lit ''Baisakh'', 4, 14),
      (lit ''Jestha'', 5, 15),
      (lit ''Ashad'', 6, 15),
      (lit ''Shrawan'', 7, 16),
      (lit ''Bhadra'', 8, 17),
      (lit ''Ashwin'', 9, 17),
      (lit ''Kartik'', 10, 18),
      (lit ''Mangsir'', 11, 17),
      (lit ''Poush'', 12, 16),
      (lit ''Magh'', 1, 15),
      (lit ''Falgun'', 2, 14),
      (lit ''Chaitra'', 3, 15)]"

definition month_keys :: "str list" where
  "month_keys = map fst nepali_to_english_dates_conversion"

definition aliases :: "(str \<times> str) list" where
  "aliases =
     [(lit ''asoj'', lit ''Ashwin''),
      (lit ''ashoj'', lit ''Ashwin''),
      (lit ''aswin'', lit ''Ashwin''),
      (lit ''baishakh'', lit ''Baisakh''),
      (lit ''baishak'', lit ''Baisakh''),
      (lit ''baisakh'', lit ''Baisakh'')]"

text \<open>
  \<open>difflib.get_close_matches(word, possibilities, n=1, cutoff=0.5)\<close> belongs to the
  standard library, not to the program. It is a parameter of the model: a function from
  the word and the candidates to the list of matches, best first. The theorems below hold
  for every such function.
\<close>

type_synonym matcher = "str \<Rightarrow> str list \<Rightarrow> str list"

definition normalize_nepali_month :: "matcher \<Rightarrow> str \<Rightarrow> error + str" where
  "normalize_nepali_month get_close_matches name =
     (if name = [] then Inl EmptyMonthName
      else
        let clean = py_strip name in
        case find (\<lambda>key. py_lower clean = py_lower key) month_keys of
          Some key \<Rightarrow> Inr key
        | None \<Rightarrow>
            let low = py_lower clean in
            case map_of aliases low of
              Some key \<Rightarrow> Inr key
            | None \<Rightarrow>
                (case get_close_matches clean month_keys of
                   m # _ \<Rightarrow> Inr m
                 | [] \<Rightarrow>
                     (case find (\<lambda>key. startswith (py_lower key) (take 3 low)) month_keys of
                        Some key \<Rightarrow> Inr key
                      | None \<Rightarrow> Inl (UnrecognizedMonth name))))"

text \<open>
  A matcher that finds nothing, which is what the library answers when no candidate
  reaches the cutoff (for the empty word, no candidate does). It instantiates the
  parameter in the concrete evaluations below; the general lemmas beside them hold for
  every matcher.
\<close>

definition no_close_matches :: matcher where
  "no_close_matches word possibilities = []"

section \<open>Calendar dates\<close>

text \<open>
  \<open>datetime.date\<close> of the standard library: a year, a month and a day, checked at
  construction; comparison is that of the triples; subtraction and the addition of a
  number of days go through the proleptic Gregorian ordinal (day 1 is 0001-01-01).
\<close>

record date =
  year :: int
  month :: int
  day :: int

definition DAYS_IN_MONTH :: "int list" where
  "DAYS_IN_MONTH = [-1, 31, 28, 31, 30, 31, 30, 31, 31, 30, 31, 30, 31]"

definition DAYS_BEFORE_MONTH :: "int list" where
  "DAYS_BEFORE_MONTH = [-1, 0, 31, 59, 90, 120, 151, 181, 212, 243, 273, 304, 334]"

text \<open>
  The library's \<open>MINYEAR\<close> is 1, its \<open>MAXYEAR\<close> is 9999, and the ordinal of 9999-12-31
  is 3652059.
\<close>

definition is_leap :: "int \<Rightarrow> bool" where
  "is_leap y = (y mod 4 = 0 \<and> (y mod 100 \<noteq> 0 \<or> y mod 400 = 0))"

definition days_before_year :: "int \<Rightarrow> int" where
  "days_before_year y = (let p = y - 1 in p * 365 + p div 4 - p div 100 + p div 400)"

text \<open>The two table reads below are made with a month between 1 and 12 only.\<close>

definition days_in_month :: "int \<Rightarrow> int \<Rightarrow> int" where
  "days_in_month y m = (if m = 2 \<and> is_leap y then 29 else DAYS_IN_MONTH ! nat m)"

definition days_before_month :: "int \<Rightarrow> int \<Rightarrow> int" where
  "days_before_month y m = DAYS_BEFORE_MONTH ! nat m + (if m > 2 \<and> is_leap y then 1 else 0)"

definition ymd2ord :: "int \<Rightarrow> int \<Rightarrow> int \<Rightarrow> int" where
  "ymd2ord y m d = days_before_year y + days_before_month y m + d"

definition ord2ymd :: "int \<Rightarrow> int \<times> int \<times> int" where
  "ord2ymd n0 =
     (let n = n0 - 1;
          n400 = n div 146097; n = n mod 146097;
          y = n400 * 400 + 1;
          n100 = n div 36524; n = n mod 36524;
          n4 = n div 1461; n = n mod 1461;
          n1 = n div 365; n = n mod 365;
          y = y + n100 * 100 + n4 * 4 + n1
      in if n1 = 4 \<or> n100 = 4 then (y - 1, 12, 31)
         else
           let leapyear = (n1 = 3 \<and> (n4 \<noteq> 24 \<or> n100 = 3));
               m = (n + 50) div 32;
               preceding = DAYS_BEFORE_MONTH ! nat m + (if m > 2 \<and> leapyear then 1 else 0)
           in if preceding > n
              then (y, m - 1,
                    n - (preceding -
                         (DAYS_IN_MONTH ! nat (m - 1) + (if m - 1 = 2 \<and> leapyear then 1 else 0))) + 1)
              else (y, m, n - preceding + 1))"

definition datetime_date :: "int \<Rightarrow> int \<Rightarrow> int \<Rightarrow> error + date" where
  "datetime_date y m d =
     (if \<not> (1 \<le> y \<and> y \<le> 9999) then Inl (YearOutOfRange y)
      else if \<not> (1 \<le> m \<and> m \<le> 12) then Inl (MonthOutOfRange m)
      else if \<not> (1 \<le> d \<and> d \<le> days_in_month y m) then Inl (DayOutOfRange d)
      else Inr \<lparr>year = y, month = m, day = d\<rparr>)"

definition toordinal :: "date \<Rightarrow> int" where
  "toordinal dt = ymd2ord (year dt) (month dt) (day dt)"

definition fromordinal :: "int \<Rightarrow> error + date" where
  "fromordinal n = (case ord2ymd n of (y, m, d) \<Rightarrow> datetime_date y m d)"

text \<open>\<open>a <= b\<close> on dates.\<close>

definition date_le :: "date \<Rightarrow> date \<Rightarrow> bool" where
  "date_le a b =
     (year a < year b \<or>
      (year a = year b \<and> (month a < month b \<or> (month a = month b \<and> day a \<le> day b))))"

text \<open>What every value of \<open>datetime.date\<close> satisfies, by the constructor's checks.\<close>

definition valid_date :: "date \<Rightarrow> bool" where
  "valid_date dt =
     (1 \<le> year dt \<and> year dt \<le> 9999 \<and> 1 \<le> month dt \<and> month dt \<le> 12 \<and>
      1 \<le> day dt \<and> day dt \<le> days_in_month (year dt) (month dt))"

text \<open>\<open>(b - a).days\<close> and \<open>a + datetime.timedelta(days=i)\<close>.\<close>

definition days_between :: "date \<Rightarrow> date \<Rightarrow> int" where
  "days_between b a = toordinal b - toordinal a"

definition date_add_days :: "date \<Rightarrow> int \<Rightarrow> error + date" where
  "date_add_days dt i =
     (let ordinal = toordinal dt + i
      in if 0 < ordinal \<and> ordinal \<le> 3652059 then fromordinal ordinal
         else Inl OverflowError)"

section \<open>The sowing-range resolver\<close>

text \<open>
  The argument of \<open>get_nepali_sowing_dates\<close> is a cell of the table: a string, or any
  other Python value (for which \<open>isinstance(nep_range, str)\<close> is false).
\<close>

datatype pyval = Str str | NonStr

text \<open>
  \<open>datetime.date.today()\<close> reads the clock; the date it returns is the argument
  \<open>today\<close> of the model.
\<close>

text \<open>
  The function is modelled in three parts, in the order of the source: from the raw
  range to the two anchors (lines 64 to 89), from the anchors and today to the chosen
  window (lines 91 to 112), and the enumeration of the window (lines 114 and 115).
\<close>

type_synonym anchor = "int \<times> int"

definition conversion_lookup :: "str \<Rightarrow> error + anchor" where
  "conversion_lookup key =
     (case map_of nepali_to_english_dates_conversion key of
        None \<Rightarrow> Inl (KeyError key)
      | Some a \<Rightarrow> Inr a)"

text \<open>Lines 82 to 89: both tokens are normalized, then both keys are looked up.\<close>

definition month_anchors :: "matcher \<Rightarrow> str \<Rightarrow> str \<Rightarrow> error + anchor \<times> anchor" where
  "month_anchors get_close_matches start_month_nep end_month_nep =
     and_then (normalize_nepali_month get_close_matches start_month_nep) (\<lambda>start_month_nep_key.
     and_then (normalize_nepali_month get_close_matches end_month_nep) (\<lambda>end_month_nep_key.
     and_then (conversion_lookup start_month_nep_key) (\<lambda>start_anchor.
     and_then (conversion_lookup end_month_nep_key) (\<lambda>end_anchor.
       Inr (start_anchor, end_anchor)))))"

definition is_sentinel :: "str \<Rightarrow> bool" where
  "is_sentinel low =
     (contains low (lit ''not recommend'') \<or>
      low \<in> set [lit ''n/a'', lit ''na'', lit ''none'', lit ''not recommended''])"

text \<open>
  Lines 64 to 89. \<open>None\<close> stands for the three places where the source returns the
  empty list before it looks at any month.
\<close>

definition range_anchors :: "matcher \<Rightarrow> pyval \<Rightarrow> error + (anchor \<times> anchor) option" where
  "range_anchors get_close_matches nep_range =
     (case nep_range of
        NonStr \<Rightarrow> Inr None
      | Str r \<Rightarrow>
          if r = [] then Inr None
          else
            let s = re_sub_dash (py_strip r);
                low = py_lower s
            in if is_sentinel low then Inr None
               else
                 let months = py_split EN_DASH s
                 in if length months < 2 then Inr None
                    else
                      let start_month_nep = py_strip (months ! 0);
                          end_month_nep = py_strip (hd (py_split LPAREN (months ! 1)))
                      in and_then (month_anchors get_close_matches start_month_nep end_month_nep)
                           (\<lambda>anchors. Inr (Some anchors)))"

text \<open>Lines 91 to 104: the four dates of the two candidate windows.\<close>

definition candidate_windows ::
  "date \<Rightarrow> anchor \<Rightarrow> anchor \<Rightarrow> error + (date \<times> date) \<times> (date \<times> date)" where
  "candidate_windows today start_anchor end_anchor =
     (case start_anchor of (start_month_eng, start_day) \<Rightarrow>
      case end_anchor of (end_month_eng, end_day) \<Rightarrow>
        let current_year = year today;
            crosses_year = (end_month_eng < start_month_eng)
        in
        and_then (datetime_date current_year start_month_eng start_day) (\<lambda>start1.
        and_then (datetime_date (if crosses_year then current_year + 1 else current_year)
                    end_month_eng end_day) (\<lambda>end1.
        and_then (datetime_date (current_year - 1) start_month_eng start_day) (\<lambda>start2.
        and_then (datetime_date (if crosses_year then current_year else current_year - 1)
                    end_month_eng end_day) (\<lambda>end2.
          Inr ((start1, end1), (start2, end2)))))))"

text \<open>Lines 106 to 112: the choice.\<close>

definition select_window :: "date \<Rightarrow> date \<times> date \<Rightarrow> date \<times> date \<Rightarrow> date \<times> date" where
  "select_window today window1 window2 =
     (case window1 of (start1, end1) \<Rightarrow>
      case window2 of (start2, end2) \<Rightarrow>
        if date_le start1 today \<and> date_le today end1 then (start1, end1)
        else if date_le start2 today \<and> date_le today end2 then (start2, end2)
        else (start1, end1))"

definition sowing_window :: "date \<Rightarrow> anchor \<Rightarrow> anchor \<Rightarrow> error + date \<times> date" where
  "sowing_window today start_anchor end_anchor =
     and_then (candidate_windows today start_anchor end_anchor)
       (\<lambda>(window1, window2). Inr (select_window today window1 window2))"

text \<open>Lines 114 and 115: the window, day by day.\<close>

definition enumerate_days :: "date \<Rightarrow> date \<Rightarrow> error + date list" where
  "enumerate_days start_date end_date =
     (let delta = days_between end_date start_date
      in traverse (date_add_days start_date) [0..delta])"

definition get_nepali_sowing_dates :: "matcher \<Rightarrow> date \<Rightarrow> pyval \<Rightarrow> error + date list" where
  "get_nepali_sowing_dates get_close_matches today nep_range =
     and_then (range_anchors get_close_matches nep_range) (\<lambda>parsed.
       case parsed of
         None \<Rightarrow> Inr []
       | Some (start_anchor, end_anchor) \<Rightarrow>
           and_then (sowing_window today start_anchor end_anchor) (\<lambda>(start_date, end_date).
             enumerate_days start_date end_date))"

section \<open>The batch over the table\<close>

text \<open>
  The table \<open>df\<close> is read from a file when the module is loaded; it is an argument of the
  model. The source reads the clock once for every row; the model passes one \<open>today\<close> to
  the whole batch. A row has the crop, the variety (as the text an f-string gives them) and the
  three sowing columns; a missing cell (NaN) is \<open>None\<close>.
\<close>

record row =
  Crop :: str
  Variety :: str
  High_Hill_Sowing :: "pyval option"
  Mid_Hill_Sowing :: "pyval option"
  Terai_Bensi_Sowing :: "pyval option"

text \<open>
  The second component of the pair the function returns: \<open>"Place not recognized"\<close>, or
  \<open>"Error parsing sowing range '...': ..."\<close> with the range and the exception.
\<close>

datatype message = PlaceNotRecognized | ErrorParsing pyval error

type_synonym crops = "str \<rightharpoonup> date list"

definition crop_key :: "row \<Rightarrow> str" where
  "crop_key r = Crop r @ lit '' - '' @ Variety r"

text \<open>\<open>df[df[col].notna()]\<close>, each row paired with its cell.\<close>

definition notna_rows :: "(row \<Rightarrow> pyval option) \<Rightarrow> row list \<Rightarrow> (row \<times> pyval) list" where
  "notna_rows col df = concat (map (\<lambda>r. case col r of None \<Rightarrow> [] | Some v \<Rightarrow> [(r, v)]) df)"

fun crops_loop ::
  "matcher \<Rightarrow> date \<Rightarrow> (row \<times> pyval) list \<Rightarrow> crops \<Rightarrow> crops option \<times> message option" where
  "crops_loop get_close_matches today [] result = (Some result, None)"
| "crops_loop get_close_matches today ((r, sowing_range) # rest) result =
     (case get_nepali_sowing_dates get_close_matches today sowing_range of
        Inl e \<Rightarrow> (None, Some (ErrorParsing sowing_range e))
      | Inr dates \<Rightarrow> crops_loop get_close_matches today rest (result(crop_key r \<mapsto> dates)))"

text \<open>The choice of the column by the place name, already lower-cased (lines 118 to 126).\<close>

definition sowing_column :: "str \<Rightarrow> (row \<Rightarrow> pyval option) option" where
  "sowing_column place_name =
     (if contains place_name (lit ''high'') then Some High_Hill_Sowing
      else if contains place_name (lit ''mid'') then Some Mid_Hill_Sowing
      else if contains place_name (lit ''terai'') \<or> contains place_name (lit ''bensi'')
        then Some Terai_Bensi_Sowing
      else None)"

definition get_crops_for_place ::
  "matcher \<Rightarrow> date \<Rightarrow> row list \<Rightarrow> str \<Rightarrow> crops option \<times> message option" where
  "get_crops_for_place get_close_matches today df place_name =
     (case sowing_column (py_lower place_name) of
        None \<Rightarrow> (None, Some PlaceNotRecognized)
      | Some col \<Rightarrow> crops_loop get_close_matches today (notna_rows col df) Map.empty)"

section \<open>The normalizer: canonical names and blank tokens\<close>

lemma dropWhile_all: "\<forall>c\<in>set a. P c \<Longrightarrow> dropWhile P (a @ s) = dropWhile P s"
  by (induction a) auto

lemma py_strip_surround:
  assumes "\<forall>c\<in>set a. isspace c" and "\<forall>c\<in>set b. isspace c"
    and "s \<noteq> []" and "\<not> isspace (hd s)" and "\<not> isspace (last s)"
  shows "py_strip (a @ s @ b) = s"
proof -
  have 1: "dropWhile isspace (a @ s @ b) = s @ b"
    using assms(1,3,4) by (cases s) (simp_all add: dropWhile_all)
  have 2: "dropWhile isspace (rev b @ rev s) = rev s"
    using assms(2,3,5) by (cases s rule: rev_cases) (simp_all add: dropWhile_all)
  show ?thesis by (simp add: py_strip_def 1 2)
qed

lemma month_keys_eq:
  "month_keys = [lit ''Baisakh'', lit ''Jestha'', lit ''Ashad'', lit ''Shrawan'', lit ''Bhadra'',
     lit ''Ashwin'', lit ''Kartik'', lit ''Mangsir'', lit ''Poush'', lit ''Magh'', lit ''Falgun'',
     lit ''Chaitra'']"
  by (simp add: month_keys_def nepali_to_english_dates_conversion_def)

lemma exact_match_key:
  assumes "key \<in> set month_keys"
  shows "find (\<lambda>k. py_lower key = py_lower k) month_keys = Some key"
  using assms unfolding month_keys_eq
  by (simp only: set_simps insert_iff empty_iff, elim disjE FalseE)
     (simp_all add: lit_def py_lower_def lower_cp_def)

lemma key_shape:
  assumes "key \<in> set month_keys"
  shows "key \<noteq> [] \<and> \<not> isspace (hd key) \<and> \<not> isspace (last key)"
  using assms unfolding month_keys_eq
  by (simp only: set_simps insert_iff empty_iff, elim disjE FalseE)
     (simp_all add: lit_def isspace_def)

lemma py_lower_upper: "key \<in> set month_keys \<Longrightarrow> py_lower (py_upper key) = py_lower key"
  unfolding month_keys_eq
  by (simp only: set_simps insert_iff empty_iff, elim disjE FalseE)
     (simp_all add: lit_def py_lower_def lower_cp_def py_upper_def upper_cp_def)

lemma py_strip_id: "s \<noteq> [] \<Longrightarrow> \<not> isspace (hd s) \<Longrightarrow> \<not> isspace (last s) \<Longrightarrow> py_strip s = s"
  using py_strip_surround [of "[]" "[]" s] by simp

lemma normalize_exact:
  assumes "name \<noteq> []" and "py_lower (py_strip name) = py_lower key" and "key \<in> set month_keys"
  shows "normalize_nepali_month gcm name = Inr key"
  using assms exact_match_key [OF assms(3)] by (simp add: normalize_nepali_month_def)

lemma upper_shape:
  assumes "key \<in> set month_keys"
  shows "py_upper key \<noteq> [] \<and> \<not> isspace (hd (py_upper key)) \<and> \<not> isspace (last (py_upper key))"
  using assms unfolding month_keys_eq
  by (simp only: set_simps insert_iff empty_iff, elim disjE FalseE)
     (simp_all add: lit_def isspace_def py_upper_def upper_cp_def)

text \<open>
  Claim C9. For each of the 12 canonical month names, the normalizer applied to the name
  itself, to its upper-cased form and to the name with white space around it returns that
  same name. This holds for every matcher: the exact, case-insensitive strategy answers
  first.
\<close>

theorem C9_canonical_names_normalize:
  assumes "key \<in> set month_keys"
    and "\<forall>c\<in>set ws1. isspace c" and "\<forall>c\<in>set ws2. isspace c"
  shows "normalize_nepali_month gcm key = Inr key
       \<and> normalize_nepali_month gcm (py_upper key) = Inr key
       \<and> normalize_nepali_month gcm (ws1 @ key @ ws2) = Inr key"
proof -
  note sh = key_shape [OF assms(1)]
  have a: "normalize_nepali_month gcm key = Inr key"
    using sh assms(1) by (intro normalize_exact) (simp_all add: py_strip_id)
  have b: "normalize_nepali_month gcm (py_upper key) = Inr key"
    using upper_shape [OF assms(1)] assms(1)
    by (intro normalize_exact) (simp_all add: py_strip_id py_lower_upper)
  have c: "normalize_nepali_month gcm (ws1 @ key @ ws2) = Inr key"
    using sh assms by (intro normalize_exact) (simp_all add: py_strip_surround)
  show ?thesis using a b c by simp
qed

theorem C9_witness:
  "lit ''Poush'' \<in> set month_keys
   \<and> normalize_nepali_month no_close_matches (lit ''Poush'') = Inr (lit ''Poush'')
   \<and> normalize_nepali_month no_close_matches (py_upper (lit ''Poush'')) = Inr (lit ''Poush'')
   \<and> normalize_nepali_month no_close_matches (lit '' Poush '') = Inr (lit ''Poush'')"
proof -
  have k: "lit ''Poush'' \<in> set month_keys" by (simp add: month_keys_eq)
  have w: "\<forall>c\<in>set (lit '' ''). isspace c" by (simp add: lit_def isspace_def)
  have "lit '' Poush '' = lit '' '' @ lit ''Poush'' @ lit '' ''" by (simp add: lit_def)
  then show ?thesis
    using k C9_canonical_names_normalize [OF k w w, of no_close_matches] by simp
qed


lemma py_strip_blank: "\<forall>c\<in>set name. isspace c \<Longrightarrow> py_strip name = []"
proof -
  assume "\<forall>c\<in>set name. isspace c"
  then have h: "dropWhile isspace name = []" by simp
  show ?thesis unfolding py_strip_def h by simp
qed

lemma normalize_blank:
  assumes "name \<noteq> []" and "\<forall>c\<in>set name. isspace c"
  shows "normalize_nepali_month gcm name =
           Inr (case gcm [] month_keys of [] \<Rightarrow> lit ''Baisakh'' | m # _ \<Rightarrow> m)"
  using assms(1) py_strip_blank [OF assms(2)]
  by (simp add: normalize_nepali_month_def month_keys_eq py_lower_def lit_def aliases_def lower_cp_def
      split: list.splits)

section \<open>The calendar: ordinals and dates\<close>

text \<open>
  The ordinal of a date grows with the date, and \<open>ord2ymd\<close> inverts \<open>ymd2ord\<close>: the facts
  that make the subtraction of dates and the addition of days mean what they should.
\<close>

lemma month_cases:
  "1 \<le> m \<Longrightarrow> m \<le> 12 \<Longrightarrow>
   m = 1 \<or> m = 2 \<or> m = 3 \<or> m = 4 \<or> m = 5 \<or> m = 6 \<or> m = 7 \<or> m = 8 \<or> m = 9 \<or> m = 10 \<or>
   m = 11 \<or> m = (12::int)"
  by arith

lemmas month_tab = days_in_month_def days_before_month_def DAYS_IN_MONTH_def DAYS_BEFORE_MONTH_def


lemma div_step:
  assumes "0 < (k::int)"
  shows "y div k = (y - 1) div k + (if y mod k = 0 then 1 else 0)"
proof -
  define q r where "q = (y - 1) div k" and "r = (y - 1) mod k"
  have y: "y = q * k + (r + 1)"
    unfolding q_def r_def by simp
  have r: "0 \<le> r" "r < k"
    using assms by (simp_all add: r_def)
  show ?thesis
  proof (cases "r + 1 = k")
    case True
    then have e: "y = (q + 1) * k" using y by (simp add: algebra_simps)
    have d: "y div k = q + 1" by (subst e) (use assms in simp)
    have m: "y mod k = 0" by (subst e) simp
    show ?thesis using d m by (simp add: q_def)
  next
    case False
    then have lt: "r + 1 < k" using r by simp
    have d: "y div k = q" by (subst y) (use r lt assms in \<open>simp add: div_pos_pos_trivial\<close>)
    have m: "y mod k = r + 1" by (subst y) (use r lt assms in \<open>simp add: mod_pos_pos_trivial\<close>)
    show ?thesis using d m r by (simp add: q_def)
  qed
qed

lemma mod_mult_zero: "(y::int) mod (a * b) = 0 \<Longrightarrow> y mod a = 0"
  by (metis dvd_mult_left mod_0_imp_dvd dvd_imp_mod_0)

lemma year_step_arith:
  fixes y :: int
  assumes "a' = a + i" "b' = b + j" "c' = c + k"
  shows "y * 365 + a' - b' + c' = (y - 1) * 365 + a - b + c + (365 + i - j + k)"
  using assms by (simp add: algebra_simps)

lemma days_before_year_step:
  "days_before_year (y + 1) = days_before_year y + (if is_leap y then 366 else 365)"
proof -
  have e1: "days_before_year (y + 1) = y * 365 + y div 4 - y div 100 + y div 400"
    by (simp add: days_before_year_def)
  have e2: "days_before_year y =
      (y - 1) * 365 + (y - 1) div 4 - (y - 1) div 100 + (y - 1) div 400"
    by (simp add: days_before_year_def Let_def)
  have d4: "y div 4 = (y - 1) div 4 + (if y mod 4 = 0 then 1 else 0)"
    by (rule div_step) simp
  have d100: "y div 100 = (y - 1) div 100 + (if y mod 100 = 0 then 1 else 0)"
    by (rule div_step) simp
  have d400: "y div 400 = (y - 1) div 400 + (if y mod 400 = 0 then 1 else 0)"
    by (rule div_step) simp
  have m1: "y mod 400 = 0 \<Longrightarrow> y mod 100 = 0"
    using mod_mult_zero [of y 100 4] by simp
  have m2: "y mod 100 = 0 \<Longrightarrow> y mod 4 = 0"
    using mod_mult_zero [of y 4 25] by simp
  have s: "days_before_year (y + 1) = days_before_year y +
      (365 + (if y mod 4 = 0 then 1 else 0) - (if y mod 100 = 0 then 1 else 0)
           + (if y mod 400 = 0 then 1 else 0))"
    unfolding e1 e2 by (rule year_step_arith [OF d4 d100 d400])
  have t: "(365::int) + (if y mod 4 = 0 then 1 else 0) - (if y mod 100 = 0 then 1 else 0)
           + (if y mod 400 = 0 then 1 else 0) = (if is_leap y then 366 else 365)"
    using m1 m2 unfolding is_leap_def
    by (cases "y mod 4 = 0"; cases "y mod 100 = 0"; cases "y mod 400 = 0") simp_all
  show ?thesis using s t by (simp only:)
qed


lemma days_before_year_mono: "y \<le> z \<Longrightarrow> days_before_year y \<le> days_before_year z"
proof (induction z rule: int_ge_induct)
  case base
  show ?case by simp
next
  case (step i)
  then show ?case by (simp add: days_before_year_step)
qed

lemma day_of_year_bounds:
  assumes "1 \<le> m" "m \<le> 12" "1 \<le> d" "d \<le> days_in_month y m"
  shows "1 \<le> days_before_month y m + d \<and>
         days_before_month y m + d \<le> (if is_leap y then 366 else 365)"
  using assms(3,4) month_cases [OF assms(1,2)]
  by (elim disjE; cases "is_leap y"; simp add: month_tab)

lemma days_before_month_mono:
  assumes "1 \<le> m" "m < m'" "m' \<le> 12"
  shows "days_before_month y m + days_in_month y m \<le> days_before_month y m'"
proof -
  have a: "m = 1 \<or> m = 2 \<or> m = 3 \<or> m = 4 \<or> m = 5 \<or> m = 6 \<or> m = 7 \<or> m = 8 \<or> m = 9 \<or> m = 10 \<or> m = 11"
    using assms by arith
  have b: "m' = 2 \<or> m' = 3 \<or> m' = 4 \<or> m' = 5 \<or> m' = 6 \<or> m' = 7 \<or> m' = 8 \<or> m' = 9 \<or> m' = 10 \<or>
   m' = 11 \<or> m' = 12"
    using assms by arith
  show ?thesis
    using a b assms(2) by (elim disjE; simp add: month_tab)
qed

lemma ymd2ord_bounds:
  assumes "1 \<le> m" "m \<le> 12" "1 \<le> d" "d \<le> days_in_month y m"
  shows "days_before_year y < ymd2ord y m d" and "ymd2ord y m d \<le> days_before_year (y + 1)"
  using day_of_year_bounds [OF assms]
  by (simp_all add: ymd2ord_def days_before_year_step)

lemma ymd2ord_less:
  assumes v: "1 \<le> m" "m \<le> 12" "1 \<le> d" "d \<le> days_in_month y m"
    and v': "1 \<le> m'" "m' \<le> 12" "1 \<le> d'" "d' \<le> days_in_month y' m'"
    and lt: "y < y' \<or> (y = y' \<and> (m < m' \<or> (m = m' \<and> d < d')))"
  shows "ymd2ord y m d < ymd2ord y' m' d'"
proof -
  consider (y) "y < y'" | (m) "y = y'" "m < m'" | (d) "y = y'" "m = m'" "d < d'"
    using lt by fast
  then show ?thesis
  proof cases
    case y
    then have "days_before_year (y + 1) \<le> days_before_year y'"
      by (intro days_before_year_mono) simp
    then show ?thesis
      using ymd2ord_bounds(2) [OF v] ymd2ord_bounds(1) [OF v'] by linarith
  next
    case m
    then show ?thesis
      using days_before_month_mono [of m m' y] v v' by (simp add: ymd2ord_def)
  next
    case d
    then show ?thesis by (simp add: ymd2ord_def)
  qed
qed

lemma date_le_iff_toordinal:
  assumes "valid_date a" "valid_date b"
  shows "date_le a b \<longleftrightarrow> toordinal a \<le> toordinal b"
proof
  assume le: "date_le a b"
  show "toordinal a \<le> toordinal b"
  proof (cases "year a = year b \<and> month a = month b \<and> day a = day b")
    case True
    then show ?thesis by (simp add: toordinal_def)
  next
    case False
    then have "year a < year b \<or> (year a = year b \<and> (month a < month b \<or>
        (month a = month b \<and> day a < day b)))"
      using le unfolding date_le_def by fastforce
    then have "toordinal a < toordinal b"
      unfolding toordinal_def using assms
      by (intro ymd2ord_less) (simp_all add: valid_date_def)
    then show ?thesis by simp
  qed
next
  assume le: "toordinal a \<le> toordinal b"
  show "date_le a b"
  proof (rule ccontr)
    assume "\<not> date_le a b"
    then have "year b < year a \<or> (year b = year a \<and> (month b < month a \<or>
        (month b = month a \<and> day b < day a)))"
      unfolding date_le_def by fastforce
    then have "toordinal b < toordinal a"
      unfolding toordinal_def using assms
      by (intro ymd2ord_less) (simp_all add: valid_date_def)
    then show False using le by simp
  qed
qed

lemma toordinal_inj:
  assumes "valid_date a" "valid_date b" "toordinal a = toordinal b"
  shows "a = b"
proof -
  have "date_le a b" "date_le b a"
    using assms by (simp_all add: date_le_iff_toordinal)
  then have "year a = year b \<and> month a = month b \<and> day a = day b"
    unfolding date_le_def by fastforce
  then show ?thesis by simp
qed

lemma toordinal_range:
  assumes "valid_date a"
  shows "1 \<le> toordinal a" and "toordinal a \<le> 3652059"
proof -
  have v: "1 \<le> month a" "month a \<le> 12" "1 \<le> day a" "day a \<le> days_in_month (year a) (month a)"
    and y: "1 \<le> year a" "year a \<le> 9999"
    using assms by (simp_all add: valid_date_def)
  have "days_before_year 1 \<le> days_before_year (year a)"
    using y by (intro days_before_year_mono)
  moreover have "days_before_year 1 = 0" by (simp add: days_before_year_def)
  ultimately show "1 \<le> toordinal a"
    using ymd2ord_bounds(1) [OF v] by (simp add: toordinal_def)
  have "days_before_year (year a + 1) \<le> days_before_year 10000"
    using y by (intro days_before_year_mono) simp
  moreover have "days_before_year 10000 = 3652059" by (simp add: days_before_year_def)
  ultimately show "toordinal a \<le> 3652059"
    using ymd2ord_bounds(2) [OF v] by (simp add: toordinal_def)
qed

lemma days_before_year_decomp:
  assumes "0 \<le> b" "b \<le> 3" "0 \<le> c" "c \<le> 24" "0 \<le> e" "e \<le> 3"
  shows "days_before_year (400 * a + 100 * b + 4 * c + e + 1) =
         146097 * a + 36524 * b + 1461 * c + 365 * e"
proof -
  define p where "p = 400 * a + 100 * b + 4 * c + e"
  have d4: "p div 4 = 100 * a + 25 * b + c"
    using assms by (intro int_div_pos_eq [where r = e]) (simp_all add: p_def)
  have d100: "p div 100 = 4 * a + b"
    using assms by (intro int_div_pos_eq [where r = "4 * c + e"]) (simp_all add: p_def)
  have d400: "p div 400 = a"
    using assms by (intro int_div_pos_eq [where r = "100 * b + 4 * c + e"]) (simp_all add: p_def)
  have "days_before_year (p + 1) = p * 365 + p div 4 - p div 100 + p div 400"
    by (simp add: days_before_year_def)
  also have "\<dots> = 146097 * a + 36524 * b + 1461 * c + 365 * e"
    unfolding d4 d100 d400 by (simp add: p_def)
  finally show ?thesis by (simp add: p_def)
qed

lemma is_leap_decomp:
  assumes "0 \<le> b" "b \<le> 3" "0 \<le> c" "c \<le> 24" "0 \<le> e" "e \<le> 3"
  shows "is_leap (400 * a + 100 * b + 4 * c + e + 1) \<longleftrightarrow> e = 3 \<and> (c \<noteq> 24 \<or> b = 3)"
proof -
  define y where "y = 400 * a + 100 * b + 4 * c + e + 1"
  have m4: "y mod 4 = (if e = 3 then 0 else e + 1)"
  proof (cases "e = 3")
    case True
    then show ?thesis
      by (simp add: int_mod_pos_eq [where q = "100 * a + 25 * b + c + 1"] y_def)
  next
    case False
    then show ?thesis using assms
      by (simp add: int_mod_pos_eq [where q = "100 * a + 25 * b + c"] y_def)
  qed
  have m100: "y mod 100 = (if c = 24 \<and> e = 3 then 0 else 4 * c + e + 1)"
  proof (cases "c = 24 \<and> e = 3")
    case True
    then show ?thesis
      by (simp add: int_mod_pos_eq [where q = "4 * a + b + 1"] y_def)
  next
    case False
    then have "4 * c + e + 1 < 100" using assms by linarith
    then show ?thesis using assms False
      by (simp add: int_mod_pos_eq [where q = "4 * a + b"] y_def)
  qed
  have m400: "y mod 400 = (if b = 3 \<and> c = 24 \<and> e = 3 then 0 else 100 * b + 4 * c + e + 1)"
  proof (cases "b = 3 \<and> c = 24 \<and> e = 3")
    case True
    then show ?thesis
      by (simp add: int_mod_pos_eq [where q = "a + 1"] y_def)
  next
    case False
    then have "100 * b + 4 * c + e + 1 < 400" using assms by linarith
    then show ?thesis using assms False
      by (simp add: int_mod_pos_eq [where q = a] y_def)
  qed
  have "is_leap y \<longleftrightarrow> e = 3 \<and> (c \<noteq> 24 \<or> b = 3)"
    unfolding is_leap_def m4 m100 m400 using assms by auto
  then show ?thesis by (simp add: y_def)
qed

lemma month_part:
  assumes m: "1 \<le> m" "m \<le> 12" and mr: "32 * m \<le> r + 50" "r + 50 < 32 * m + 32"
    and r: "0 \<le> r" "r \<le> 364" and l: "leapyear = is_leap y"
  shows "\<exists>mm dd.
    (let preceding = DAYS_BEFORE_MONTH ! nat m + (if m > 2 \<and> leapyear then 1 else 0)
     in if preceding > r
        then (y, m - 1,
              r - (preceding -
                   (DAYS_IN_MONTH ! nat (m - 1) + (if m - 1 = 2 \<and> leapyear then 1 else 0))) + 1)
        else (y, m, r - preceding + 1)) = (y, mm, dd)
    \<and> 1 \<le> mm \<and> mm \<le> 12 \<and> 1 \<le> dd \<and> dd \<le> days_in_month y mm
    \<and> days_before_month y mm + dd = r + 1"
  using mr r month_cases [OF m] unfolding l
  by (elim disjE; cases "is_leap y"; simp add: month_tab Let_def; linarith?)

lemma divmod_facts:
  fixes x k :: int
  assumes "0 < k"
  shows "x = k * (x div k) + x mod k" and "0 \<le> x mod k" and "x mod k < k"
  using assms by simp_all

lemma ord2ymd_correct:
  assumes "1 \<le> n"
  shows "\<exists>y m d. ord2ymd n = (y, m, d) \<and> 1 \<le> y \<and> 1 \<le> m \<and> m \<le> 12 \<and> 1 \<le> d \<and>
           d \<le> days_in_month y m \<and> ymd2ord y m d = n"
proof -
  define n0 where "n0 = n - 1"
  define a where "a = n0 div 146097"
  define r1 where "r1 = n0 mod 146097"
  define b where "b = r1 div 36524"
  define r2 where "r2 = r1 mod 36524"
  define c where "c = r2 div 1461"
  define r3 where "r3 = r2 mod 1461"
  define e where "e = r3 div 365"
  define r where "r = r3 mod 365"
  define m where "m = (r + 50) div 32"
  define Y where "Y = a * 400 + 1 + b * 100 + c * 4 + e"
  have f0: "n0 = 146097 * a + r1" "0 \<le> r1" "r1 < 146097"
    unfolding a_def r1_def by (rule divmod_facts; simp)+
  have f1: "r1 = 36524 * b + r2" "0 \<le> r2" "r2 < 36524"
    unfolding b_def r2_def by (rule divmod_facts; simp)+
  have f2: "r2 = 1461 * c + r3" "0 \<le> r3" "r3 < 1461"
    unfolding c_def r3_def by (rule divmod_facts; simp)+
  have f3: "r3 = 365 * e + r" "0 \<le> r" "r < 365"
    unfolding e_def r_def by (rule divmod_facts; simp)+
  have f4: "32 * m \<le> r + 50" "r + 50 < 32 * m + 32"
    using divmod_facts [of 32 "r + 50"] unfolding m_def by linarith+
  have n0: "0 \<le> n0" using assms by (simp add: n0_def)
  have a: "0 \<le> a" using f0 n0 by linarith
  have b: "0 \<le> b" "b \<le> 4" using f0 f1 by linarith+
  have c: "0 \<le> c" "c \<le> 24" using f1 f2 by linarith+
  have e: "0 \<le> e" "e \<le> 4" using f2 f3 by linarith+
  have m: "1 \<le> m" "m \<le> 12" using f3 f4 by linarith+
  let ?L = "e = 3 \<and> (c \<noteq> 24 \<or> b = 3)"
  let ?M = "(let preceding = DAYS_BEFORE_MONTH ! nat m + (if m > 2 \<and> ?L then 1 else 0)
     in if preceding > r
        then (Y, m - 1,
              r - (preceding -
                   (DAYS_IN_MONTH ! nat (m - 1) + (if m - 1 = 2 \<and> ?L then 1 else 0))) + 1)
        else (Y, m, r - preceding + 1))"
  have unf: "ord2ymd n = (if e = 4 \<or> b = 4 then (Y - 1, 12, 31) else ?M)"
    by (simp only: ord2ymd_def Let_def Y_def m_def r_def e_def r3_def c_def r2_def b_def r1_def
      a_def n0_def)
  have Y_def: "Y = 400 * a + 100 * b + 4 * c + e + 1"
    by (simp add: Y_def)
  show ?thesis
  proof (cases "e = 4 \<or> b = 4")
    case True
    have res: "ord2ymd n = (Y - 1, 12, 31)" using True unf by simp
    have special: "1 \<le> Y - 1 \<and> ymd2ord (Y - 1) 12 31 = n"
      if bc: "0 \<le> c'" "c' \<le> 24" "0 \<le> b'" "b' \<le> 3"
        and Y1: "Y - 1 = 400 * a + 100 * b' + 4 * c' + 3 + 1" and lp: "c' \<noteq> 24 \<or> b' = 3"
        and n0': "n0 = 146097 * a + 36524 * b' + 1461 * c' + 365 * 3 + 365"
      for b' c'
    proof -
      have dby: "days_before_year (Y - 1) = 146097 * a + 36524 * b' + 1461 * c' + 365 * 3"
        unfolding Y1 using bc by (intro days_before_year_decomp) simp_all
      have leap: "is_leap (Y - 1)"
        unfolding Y1 using bc lp by (subst is_leap_decomp) simp_all
      have Ypos: "1 \<le> Y - 1" using Y1 a bc by linarith
      have "ymd2ord (Y - 1) 12 31 = n"
        using dby leap n0' by (simp add: ymd2ord_def month_tab n0_def)
      then show ?thesis using Ypos by simp
    qed
    have "1 \<le> Y - 1 \<and> ymd2ord (Y - 1) 12 31 = n"
    proof (cases "b = 4")
      case True
      then have "r2 = 0" "c = 0" "r3 = 0" "e = 0" "r = 0"
        using f0 f1 f2 f3 c e by linarith+
      then show ?thesis
        using True f0 f1 Y_def by (intro special [of 24 3]; simp)
    next
      case False
      then have e4: "e = 4" and b3: "b \<le> 3" using True b by simp_all
      then have r0: "r = 0" and c23: "c \<le> 23" using f1 f2 f3 by linarith+
      show ?thesis
      proof (rule special [of c b])
        show "c \<noteq> 24 \<or> b = 3" using c23 by simp
      qed (use e4 b3 b c f0 f1 f2 f3 r0 Y_def in linarith)+
    qed
    moreover have "31 \<le> days_in_month (Y - 1) 12" by (simp add: month_tab)
    ultimately show ?thesis using res by simp
  next
    case False
    then have b3: "b \<le> 3" and e3: "e \<le> 3" using b e by linarith+
    have dby: "days_before_year Y = 146097 * a + 36524 * b + 1461 * c + 365 * e"
      unfolding Y_def using b3 e3 b c e by (intro days_before_year_decomp) simp_all
    have leap: "(e = 3 \<and> (c \<noteq> 24 \<or> b = 3)) = is_leap Y"
      unfolding Y_def using b3 e3 b c e by (subst is_leap_decomp) simp_all
    have r364: "r \<le> 364" using f3 by simp
    from month_part [OF m f4 f3(2) r364 leap]
    obtain mm dd where md: "?M = (Y, mm, dd)"
      and v: "1 \<le> mm" "mm \<le> 12" "1 \<le> dd" "dd \<le> days_in_month Y mm"
      and s: "days_before_month Y mm + dd = r + 1"
      by blast
    have "ord2ymd n = ?M"
      unfolding unf by (simp only: False if_False)
    then have res: "ord2ymd n = (Y, mm, dd)"
      by (simp only: md)
    have Ypos: "1 \<le> Y" unfolding Y_def using a b c e by linarith
    have "ymd2ord Y mm dd = n"
      using dby s f0 f1 f2 f3 by (simp add: ymd2ord_def n0_def)
    then show ?thesis using res Ypos v by simp
  qed
qed

section \<open>Date arithmetic\<close>

lemma datetime_date_Inr:
  "datetime_date y m d = Inr dt \<longleftrightarrow>
     dt = \<lparr>year = y, month = m, day = d\<rparr> \<and> valid_date \<lparr>year = y, month = m, day = d\<rparr>"
  by (auto simp: datetime_date_def valid_date_def)

lemma fromordinal_ok:
  assumes "1 \<le> n" "n \<le> 3652059"
  shows "\<exists>dt. fromordinal n = Inr dt \<and> valid_date dt \<and> toordinal dt = n"
proof -
  obtain y m d where o: "ord2ymd n = (y, m, d)" and y: "1 \<le> y"
    and v: "1 \<le> m" "m \<le> 12" "1 \<le> d" "d \<le> days_in_month y m" and n: "ymd2ord y m d = n"
    using ord2ymd_correct [OF assms(1)] by blast
  have "y \<le> 9999"
  proof (rule ccontr)
    assume "\<not> y \<le> 9999"
    then have "days_before_year 10000 \<le> days_before_year y"
      by (intro days_before_year_mono) simp
    moreover have "days_before_year 10000 = 3652059" by (simp add: days_before_year_def)
    ultimately show False using ymd2ord_bounds(1) [OF v] n assms(2) by linarith
  qed
  then have "valid_date \<lparr>year = y, month = m, day = d\<rparr>"
    using y v by (simp add: valid_date_def)
  then show ?thesis
    using o n by (simp add: fromordinal_def datetime_date_Inr toordinal_def)
qed

lemma date_add_days_ok:
  assumes "valid_date s" "0 \<le> i" "toordinal s + i \<le> 3652059"
  shows "\<exists>dt. date_add_days s i = Inr dt \<and> valid_date dt \<and> toordinal dt = toordinal s + i"
proof -
  have "1 \<le> toordinal s + i" using toordinal_range(1) [OF assms(1)] assms(2) by linarith
  then show ?thesis
    using fromordinal_ok [of "toordinal s + i"] assms(3) by (simp add: date_add_days_def Let_def)
qed

lemma traverse_Inr:
  assumes "\<And>x. x \<in> set xs \<Longrightarrow> f x = Inr (g x)"
  shows "traverse f xs = Inr (map g xs)"
  using assms by (induction xs) (simp_all add: and_then_def)

lemma traverse_length: "traverse f xs = Inr ys \<Longrightarrow> length ys = length xs"
  by (induction xs arbitrary: ys) (auto simp: and_then_def split: sum.splits)

lemma traverse_nth:
  "traverse f xs = Inr ys \<Longrightarrow> i < length xs \<Longrightarrow> f (xs ! i) = Inr (ys ! i)"
proof (induction xs arbitrary: ys i)
  case Nil
  then show ?case by simp
next
  case (Cons x xs)
  then show ?case
    by (cases i) (auto simp: and_then_def split: sum.splits)
qed

lemma upto_0_length: "length [0..delta] = nat (delta + 1)"
  by simp

lemma upto_0_nth: "i < nat (delta + 1) \<Longrightarrow> [0..delta] ! i = int i"
  using nth_upto [of 0 i delta] by simp

lemma enumerate_days_ok:
  assumes "valid_date s" "valid_date e" "toordinal s \<le> toordinal e"
  shows "\<exists>ds. enumerate_days s e = Inr ds
           \<and> int (length ds) = days_between e s + 1
           \<and> (\<forall>i < length ds. valid_date (ds ! i) \<and> toordinal (ds ! i) = toordinal s + int i)"
proof -
  define delta where "delta = days_between e s"
  have d0: "0 \<le> delta" using assms(3) by (simp add: delta_def days_between_def)
  have ex: "\<exists>dt. date_add_days s i = Inr dt \<and> valid_date dt \<and> toordinal dt = toordinal s + i"
    if "i \<in> set [0..delta]" for i
  proof -
    have "0 \<le> i" "toordinal s + i \<le> toordinal e"
      using that by (simp_all add: delta_def days_between_def)
    then show ?thesis
      using toordinal_range(2) [OF assms(2)] by (intro date_add_days_ok [OF assms(1)]) simp_all
  qed
  define g where "g i = (SOME dt. date_add_days s i = Inr dt)" for i
  have g: "date_add_days s i = Inr (g i)" if "i \<in> set [0..delta]" for i
    unfolding g_def using ex [OF that] by (metis (mono_tags, lifting) someI_ex)
  have tr: "enumerate_days s e = Inr (map g [0..delta])"
    unfolding enumerate_days_def Let_def delta_def [symmetric] by (rule traverse_Inr) (rule g)
  have len: "int (length (map g [0..delta])) = days_between e s + 1"
    using d0 by (simp add: delta_def)
  have nth: "valid_date (map g [0..delta] ! i) \<and>
        toordinal (map g [0..delta] ! i) = toordinal s + int i"
    if "i < length (map g [0..delta])" for i
  proof -
    have i: "i < nat (delta + 1)" using that by simp
    then have mem: "int i \<in> set [0..delta]" by simp
    have "map g [0..delta] ! i = g (int i)"
      using i by (simp add: upto_0_nth)
    then show ?thesis using ex [OF mem] g [OF mem] by auto
  qed
  show ?thesis using tr len nth by blast
qed

lemma enumerate_days_ends:
  assumes "valid_date s" "valid_date e" "toordinal s \<le> toordinal e"
    and "enumerate_days s e = Inr ds"
  shows "ds \<noteq> []" and "hd ds = s" and "last ds = e"
proof -
  obtain ds' where e: "enumerate_days s e = Inr ds'"
    and len: "int (length ds') = days_between e s + 1"
    and nth: "\<forall>i < length ds'. valid_date (ds' ! i) \<and> toordinal (ds' ! i) = toordinal s + int i"
    using enumerate_days_ok [OF assms(1-3)] by blast
  have eq: "ds' = ds" using e assms(4) by simp
  note len = len [unfolded eq days_between_def] and nth = nth [unfolded eq]
  have "0 < int (length ds)" using len assms(3) by linarith
  then have pos: "0 < length ds" by simp
  then show ne: "ds \<noteq> []" by simp
  have "valid_date (ds ! 0) \<and> toordinal (ds ! 0) = toordinal s"
    using nth pos by auto
  then have "ds ! 0 = s" using assms(1) by (intro toordinal_inj) simp_all
  then show "hd ds = s" using ne by (simp add: hd_conv_nth)
  have "valid_date (ds ! (length ds - 1)) \<and>
        toordinal (ds ! (length ds - 1)) = toordinal s + int (length ds - 1)"
    using nth pos by auto
  moreover have "toordinal s + int (length ds - 1) = toordinal e"
  proof -
    have "int (length ds - 1) = int (length ds) - 1" using ne by (cases ds) simp_all
    then show ?thesis using len by linarith
  qed
  ultimately have "ds ! (length ds - 1) = e" using assms(2) by (intro toordinal_inj) simp_all
  then show "last ds = e" using ne by (simp add: last_conv_nth)
qed

section \<open>Anchors and windows\<close>

lemma anchors_eq:
  "map snd nepali_to_english_dates_conversion =
     [(4, 14), (5, 15), (6, 15), (7, 16), (8, 17), (9, 17), (10, 18), (11, 17), (12, 16),
      (1, 15), (2, 14), (3, 15)]"
  by (simp add: nepali_to_english_dates_conversion_def)

lemma anchor_cases:
  assumes "(m, d) \<in> set (map snd nepali_to_english_dates_conversion)"
  shows "(m = 4 \<and> d = 14) \<or> (m = 5 \<and> d = 15) \<or> (m = 6 \<and> d = 15) \<or> (m = 7 \<and> d = 16) \<or>
         (m = 8 \<and> d = 17) \<or> (m = 9 \<and> d = 17) \<or> (m = 10 \<and> d = 18) \<or> (m = 11 \<and> d = 17) \<or>
         (m = 12 \<and> d = 16) \<or> (m = 1 \<and> d = 15) \<or> (m = 2 \<and> d = 14) \<or> (m = 3 \<and> d = 15)"
  using assms unfolding anchors_eq by simp

lemma anchor_bounds:
  assumes "(m, d) \<in> set (map snd nepali_to_english_dates_conversion)"
  shows "1 \<le> m \<and> m \<le> 12 \<and> 1 \<le> d \<and> d \<le> 28"
  using anchor_cases [OF assms] by auto

lemma anchor_unique:
  assumes "(m, d) \<in> set (map snd nepali_to_english_dates_conversion)"
    and "(m, d') \<in> set (map snd nepali_to_english_dates_conversion)"
  shows "d = d'"
  using anchor_cases [OF assms(1)] anchor_cases [OF assms(2)] by auto

lemma days_in_month_ge_28: "1 \<le> m \<Longrightarrow> m \<le> 12 \<Longrightarrow> 28 \<le> days_in_month y m"
  using month_cases [of m] by (auto simp: month_tab)

lemma anchor_date:
  assumes "(m, d) \<in> set (map snd nepali_to_english_dates_conversion)"
  shows "datetime_date y m d =
     (if 1 \<le> y \<and> y \<le> 9999 then Inr \<lparr>year = y, month = m, day = d\<rparr> else Inl (YearOutOfRange y))"
    and "1 \<le> y \<Longrightarrow> y \<le> 9999 \<Longrightarrow> valid_date \<lparr>year = y, month = m, day = d\<rparr>"
  using anchor_bounds [OF assms] days_in_month_ge_28 [of m y]
  by (auto simp: datetime_date_def valid_date_def)

lemma conversion_lookup_anchor:
  "conversion_lookup key = Inr a \<Longrightarrow> a \<in> set (map snd nepali_to_english_dates_conversion)"
  by (auto simp: conversion_lookup_def split: option.splits dest!: map_of_SomeD intro: rev_image_eqI)

lemma month_anchors_anchor:
  assumes "month_anchors gcm t1 t2 = Inr (sa, ea)"
  shows "sa \<in> set (map snd nepali_to_english_dates_conversion)"
    and "ea \<in> set (map snd nepali_to_english_dates_conversion)"
  using assms conversion_lookup_anchor
  by (auto simp: month_anchors_def and_then_def split: sum.splits)

lemma range_anchors_anchor:
  assumes "range_anchors gcm nep_range = Inr (Some (sa, ea))"
  shows "sa \<in> set (map snd nepali_to_english_dates_conversion)"
    and "ea \<in> set (map snd nepali_to_english_dates_conversion)"
  using assms month_anchors_anchor
  by (auto simp: range_anchors_def and_then_def Let_def split: pyval.splits if_splits sum.splits)

lemma get_dates_parsed:
  assumes "range_anchors gcm nep_range = Inr (Some (sa, ea))"
  shows "get_nepali_sowing_dates gcm today nep_range =
     and_then (sowing_window today sa ea) (\<lambda>(s, e). enumerate_days s e)"
  using assms by (simp add: get_nepali_sowing_dates_def and_then_def)

lemma candidate_windows_eq:
  assumes "(sm, sd) \<in> set (map snd nepali_to_english_dates_conversion)"
    and "(em, ed) \<in> set (map snd nepali_to_english_dates_conversion)"
  shows "candidate_windows today (sm, sd) (em, ed) = Inr (w1, w2) \<longleftrightarrow>
     2 \<le> year today \<and> year today + (if em < sm then 1 else 0) \<le> 9999 \<and>
     w1 = (\<lparr>year = year today, month = sm, day = sd\<rparr>,
           \<lparr>year = year today + (if em < sm then 1 else 0), month = em, day = ed\<rparr>) \<and>
     w2 = (\<lparr>year = year today - 1, month = sm, day = sd\<rparr>,
           \<lparr>year = year today - (if em < sm then 0 else 1), month = em, day = ed\<rparr>)"
  by (auto simp: candidate_windows_def and_then_def Let_def anchor_date(1) [OF assms(1)]
      anchor_date(1) [OF assms(2)])

lemma window_order:
  assumes s: "(sm, sd) \<in> set (map snd nepali_to_english_dates_conversion)"
    and e: "(em, ed) \<in> set (map snd nepali_to_english_dates_conversion)"
  shows "date_le \<lparr>year = y, month = sm, day = sd\<rparr>
           \<lparr>year = y + (if em < sm then 1 else 0), month = em, day = ed\<rparr>"
proof (cases "em = sm")
  case True
  then have "ed = sd" using anchor_unique s e by blast
  then show ?thesis using True by (simp add: date_le_def)
next
  case False
  then show ?thesis by (auto simp: date_le_def)
qed

text \<open>What the chosen window is, whichever of the two it is.\<close>

lemma sowing_window_props:
  assumes s: "(sm, sd) \<in> set (map snd nepali_to_english_dates_conversion)"
    and e: "(em, ed) \<in> set (map snd nepali_to_english_dates_conversion)"
    and w: "sowing_window today (sm, sd) (em, ed) = Inr (start_date, end_date)"
  shows "valid_date start_date" and "valid_date end_date" and "date_le start_date end_date"
    and "month start_date = sm" and "month end_date = em"
    and "year end_date = year start_date + (if em < sm then 1 else 0)"
proof -
  obtain w1 w2 where cw: "candidate_windows today (sm, sd) (em, ed) = Inr (w1, w2)"
    and sel: "(start_date, end_date) = select_window today w1 w2"
    using w by (auto simp: sowing_window_def and_then_def split: sum.splits)
  note c = cw [unfolded candidate_windows_eq [OF s e]]
  define y where "y = (if (start_date, end_date) = w1 then year today else year today - 1)"
  define k :: int where "k = (if em < sm then 1 else 0)"
  have y: "1 \<le> y" "y + k \<le> 9999"
    using c by (auto simp: y_def k_def split: if_splits)
  have k: "0 \<le> k" by (simp add: k_def)
  have "(start_date, end_date) = w1 \<or> (start_date, end_date) = w2"
    using sel by (auto simp: select_window_def split: prod.splits if_splits)
  then have se: "start_date = \<lparr>year = y, month = sm, day = sd\<rparr>"
      "end_date = \<lparr>year = y + k, month = em, day = ed\<rparr>"
    using c by (auto simp: y_def k_def split: if_splits)
  have "y \<le> 9999" "1 \<le> y + k" using y k by linarith+
  then show "valid_date start_date" "valid_date end_date"
    unfolding se using y anchor_date(2) [OF s] anchor_date(2) [OF e] by blast+
  show "date_le start_date end_date"
    unfolding se k_def by (rule window_order [OF s e])
  show "month start_date = sm" "month end_date = em"
    "year end_date = year start_date + (if em < sm then 1 else 0)"
    by (simp_all add: se k_def)
qed

lemma sowing_window_total:
  assumes s: "(sm, sd) \<in> set (map snd nepali_to_english_dates_conversion)"
    and e: "(em, ed) \<in> set (map snd nepali_to_english_dates_conversion)"
    and y: "2 \<le> year today" "year today + (if em < sm then 1 else 0) \<le> 9999"
  shows "\<exists>w. sowing_window today (sm, sd) (em, ed) = Inr w"
proof -
  obtain w1 w2 where "candidate_windows today (sm, sd) (em, ed) = Inr (w1, w2)"
    using y unfolding candidate_windows_eq [OF s e] by blast
  then show ?thesis by (simp add: sowing_window_def and_then_def)
qed

section \<open>The resolver on parsed ranges\<close>

lemmas str_eval = lit_def py_strip_def isspace_def re_sub_dash_def dash_class_def py_lower_def
  lower_cp_def is_sentinel_def

lemma month_anchors_keys:
  assumes "k1 \<in> set month_keys" "k2 \<in> set month_keys"
  shows "month_anchors gcm k1 k2 =
     and_then (conversion_lookup k1) (\<lambda>sa. and_then (conversion_lookup k2) (\<lambda>ea. Inr (sa, ea)))"
  using key_shape [OF assms(1)] key_shape [OF assms(2)] assms
  by (simp add: month_anchors_def normalize_exact py_strip_id and_then_def)

lemma anchors_baisakh_jestha:
  "range_anchors gcm (Str (lit ''Baisakh'' @ EN_DASH # lit ''Jestha'')) =
     Inr (Some ((4, 14), (5, 15)))"
proof -
  have k: "lit ''Baisakh'' \<in> set month_keys" "lit ''Jestha'' \<in> set month_keys"
    by (simp_all add: month_keys_eq)
  have "range_anchors gcm (Str (lit ''Baisakh'' @ EN_DASH # lit ''Jestha'')) =
      and_then (month_anchors gcm (lit ''Baisakh'') (lit ''Jestha'')) (\<lambda>a. Inr (Some a))"
    by (simp add: range_anchors_def str_eval)
  also have "\<dots> = Inr (Some ((4, 14), (5, 15)))"
    unfolding month_anchors_keys [OF k]
    by (simp add: conversion_lookup_def nepali_to_english_dates_conversion_def and_then_def lit_def)
  finally show ?thesis .
qed

lemma anchors_poush_magh:
  "range_anchors gcm (Str (lit ''Poush'' @ EN_DASH # lit ''Magh'')) =
     Inr (Some ((12, 16), (1, 15)))"
proof -
  have k: "lit ''Poush'' \<in> set month_keys" "lit ''Magh'' \<in> set month_keys"
    by (simp_all add: month_keys_eq)
  have "range_anchors gcm (Str (lit ''Poush'' @ EN_DASH # lit ''Magh'')) =
      and_then (month_anchors gcm (lit ''Poush'') (lit ''Magh'')) (\<lambda>a. Inr (Some a))"
    by (simp add: range_anchors_def str_eval)
  also have "\<dots> = Inr (Some ((12, 16), (1, 15)))"
    unfolding month_anchors_keys [OF k]
    by (simp add: conversion_lookup_def nepali_to_english_dates_conversion_def and_then_def lit_def)
  finally show ?thesis .
qed

lemmas date_eval = datetime_date_def days_in_month_def is_leap_def DAYS_IN_MONTH_def
  DAYS_BEFORE_MONTH_def date_le_def toordinal_def ymd2ord_def days_before_year_def
  days_before_month_def days_between_def valid_date_def

lemma window_2024_05_01:
  "sowing_window \<lparr>year = 2024, month = 5, day = 1\<rparr> (4, 14) (5, 15) =
     Inr (\<lparr>year = 2024, month = 4, day = 14\<rparr>, \<lparr>year = 2024, month = 5, day = 15\<rparr>)"
  by (simp add: sowing_window_def candidate_windows_def select_window_def and_then_def date_eval)

lemma dates_baisakh_jestha_2024:
  "\<exists>ds. get_nepali_sowing_dates gcm \<lparr>year = 2024, month = 5, day = 1\<rparr>
           (Str (lit ''Baisakh'' @ EN_DASH # lit ''Jestha'')) = Inr ds
        \<and> length ds = 32
        \<and> hd ds = \<lparr>year = 2024, month = 4, day = 14\<rparr>
        \<and> last ds = \<lparr>year = 2024, month = 5, day = 15\<rparr>"
proof -
  let ?s = "\<lparr>year = 2024, month = 4, day = 14\<rparr>" and ?e = "\<lparr>year = 2024, month = 5, day = 15\<rparr>"
  have g: "get_nepali_sowing_dates gcm \<lparr>year = 2024, month = 5, day = 1\<rparr>
           (Str (lit ''Baisakh'' @ EN_DASH # lit ''Jestha'')) = enumerate_days ?s ?e"
    by (simp add: get_dates_parsed [OF anchors_baisakh_jestha] window_2024_05_01 and_then_def)
  have v: "valid_date ?s" "valid_date ?e" and le: "toordinal ?s \<le> toordinal ?e"
    and d: "days_between ?e ?s = 31"
    by (simp_all add: date_eval)
  obtain ds where e: "enumerate_days ?s ?e = Inr ds"
    and len: "int (length ds) = days_between ?e ?s + 1"
    using enumerate_days_ok [OF v le] by blast
  have "length ds = 32" using len d by simp
  then show ?thesis
    using g e enumerate_days_ends(2,3) [OF v le e] by simp
qed


lemma get_dates_window:
  assumes p: "range_anchors gcm nep_range = Inr (Some ((sm, sd), (em, ed)))"
    and g: "get_nepali_sowing_dates gcm today nep_range = Inr ds"
  obtains start_date end_date where
    "sowing_window today (sm, sd) (em, ed) = Inr (start_date, end_date)"
    "enumerate_days start_date end_date = Inr ds"
    "valid_date start_date" "valid_date end_date" "date_le start_date end_date"
    "toordinal start_date \<le> toordinal end_date"
    "year end_date = year start_date + (if em < sm then 1 else 0)"
proof -
  note a = range_anchors_anchor [OF p]
  obtain s e where w: "sowing_window today (sm, sd) (em, ed) = Inr (s, e)"
    and en: "enumerate_days s e = Inr ds"
    using g unfolding get_dates_parsed [OF p]
    by (auto simp: and_then_def split: sum.splits)
  note pr = sowing_window_props [OF a w]
  have "toordinal s \<le> toordinal e"
    using pr(1-3) by (simp add: date_le_iff_toordinal)
  then show thesis using that w en pr by blast
qed

text \<open>
  Claim C6. For a parseable range whose end anchor month is smaller than its start anchor
  month, and for every today, a resolved window ends in the year after the one it starts
  in, whichever window is chosen: every sequence the resolver returns is not empty and its
  last date's year is its first date's year plus one. The resolver does return one when
  the years it needs exist (today's year from 2 to 9998).
\<close>

theorem C6_year_wrap:
  assumes p: "range_anchors gcm nep_range = Inr (Some ((sm, sd), (em, ed)))"
    and x: "em < sm"
  shows "(\<forall>ds. get_nepali_sowing_dates gcm today nep_range = Inr ds \<longrightarrow>
            ds \<noteq> [] \<and> year (last ds) = year (hd ds) + 1)
       \<and> (2 \<le> year today \<and> year today \<le> 9998 \<longrightarrow>
            (\<exists>ds. get_nepali_sowing_dates gcm today nep_range = Inr ds))"
proof (intro conjI allI impI)
  fix ds
  assume g: "get_nepali_sowing_dates gcm today nep_range = Inr ds"
  from get_dates_window [OF p g] obtain s e where
    en: "enumerate_days s e = Inr ds" and v: "valid_date s" "valid_date e"
    and le: "toordinal s \<le> toordinal e"
    and y: "year e = year s + (if em < sm then 1 else 0)"
    by blast
  note ends = enumerate_days_ends [OF v le en]
  show "ds \<noteq> []" by (rule ends(1))
  show "year (last ds) = year (hd ds) + 1"
    using y x by (simp add: ends)
next
  assume y: "2 \<le> year today \<and> year today \<le> 9998"
  note a = range_anchors_anchor [OF p]
  obtain w where w: "sowing_window today (sm, sd) (em, ed) = Inr w"
    using sowing_window_total [OF a, of today] y x by auto
  obtain s e where se: "w = (s, e)" by (cases w)
  note pr = sowing_window_props [OF a w [unfolded se]]
  have "toordinal s \<le> toordinal e"
    using pr(1-3) by (simp add: date_le_iff_toordinal)
  then obtain ds where "enumerate_days s e = Inr ds"
    using enumerate_days_ok [OF pr(1,2)] by blast
  then show "\<exists>ds. get_nepali_sowing_dates gcm today nep_range = Inr ds"
    unfolding get_dates_parsed [OF p] by (simp add: w se and_then_def)
qed

theorem C6_witness:
  "range_anchors no_close_matches (Str (lit ''Poush'' @ EN_DASH # lit ''Magh'')) =
      Inr (Some ((12, 16), (1, 15)))
   \<and> (1::int) < 12
   \<and> (\<exists>ds. get_nepali_sowing_dates no_close_matches \<lparr>year = 2024, month = 5, day = 1\<rparr>
          (Str (lit ''Poush'' @ EN_DASH # lit ''Magh'')) = Inr ds
        \<and> ds \<noteq> [] \<and> year (last ds) = year (hd ds) + 1)"
proof -
  have x: "(1::int) < 12" by simp
  show ?thesis
    using C6_year_wrap [OF anchors_poush_magh x, of no_close_matches
        "\<lparr>year = 2024, month = 5, day = 1\<rparr>"] anchors_poush_magh [of no_close_matches]
    by auto
qed

lemma enumerate_days_nth:
  assumes "enumerate_days s e = Inr ds" and "i < length ds"
  shows "date_add_days s (int i) = Inr (ds ! i)"
proof -
  define delta where "delta = days_between e s"
  have t: "traverse (date_add_days s) [0..delta] = Inr ds"
    using assms(1) by (simp add: enumerate_days_def delta_def)
  have l: "length ds = length [0..delta]" using t by (rule traverse_length)
  then have i: "i < nat (delta + 1)" using assms(2) by simp
  have "date_add_days s ([0..delta] ! i) = Inr (ds ! i)"
    using t by (rule traverse_nth) (use assms(2) l in simp)
  then show ?thesis unfolding upto_0_nth [OF i] .
qed

lemma candidate_windows_first:
  assumes "candidate_windows today (sm, sd) (em, ed) = Inr ((start1, end1), w2)"
  shows "year start1 = year today" and "month start1 = sm" and "day start1 = sd"
    and "month end1 = em" and "day end1 = ed"
    and "year end1 = year today + (if em < sm then 1 else 0)"
  using assms
  by (auto simp: candidate_windows_def and_then_def Let_def datetime_date_Inr
      split: sum.splits if_splits)

text \<open>
  Claim C7. For a parseable range and a today that lies in neither candidate window, the
  resolver returns the enumeration of the window anchored at the current year: that
  window starts in today's year on the start anchor and ends on the end anchor, in the
  same year or, when the range wraps, in the next. The resolver does not raise, and the
  sequence is not empty: it begins with the window's start, ends with its end, has one
  element for every day of the window, and its element at index \<open>i\<close> is the start plus
  \<open>i\<close> days. The two candidate windows are taken as constructed, which they are whenever
  the years they name exist.
\<close>

theorem C7_out_of_season_fallback:
  assumes p: "range_anchors gcm nep_range = Inr (Some (start_anchor, end_anchor))"
    and cw: "candidate_windows today start_anchor end_anchor =
               Inr ((start1, end1), (start2, end2))"
    and out1: "\<not> (date_le start1 today \<and> date_le today end1)"
    and out2: "\<not> (date_le start2 today \<and> date_le today end2)"
  shows "get_nepali_sowing_dates gcm today nep_range = enumerate_days start1 end1
       \<and> year start1 = year today
       \<and> (month start1, day start1) = start_anchor
       \<and> (month end1, day end1) = end_anchor
       \<and> year end1 = year today + (if fst end_anchor < fst start_anchor then 1 else 0)
       \<and> (\<exists>ds. enumerate_days start1 end1 = Inr ds \<and> ds \<noteq> [] \<and> hd ds = start1 \<and>
                 last ds = end1
               \<and> int (length ds) = days_between end1 start1 + 1
               \<and> (\<forall>i<length ds. date_add_days start1 (int i) = Inr (ds ! i)
                     \<and> valid_date (ds ! i)
                     \<and> toordinal (ds ! i) = toordinal start1 + int i))"
proof -
  obtain sm sd em ed where sa: "start_anchor = (sm, sd)" and ea: "end_anchor = (em, ed)"
    by (cases start_anchor, cases end_anchor)
  note a = range_anchors_anchor [OF p [unfolded sa ea]]
  have w: "sowing_window today (sm, sd) (em, ed) = Inr (start1, end1)"
    using cw out1 out2 by (auto simp: sowing_window_def select_window_def and_then_def sa ea)
  note pr = sowing_window_props [OF a w]
  note f = candidate_windows_first [OF cw [unfolded sa ea]]
  have le: "toordinal start1 \<le> toordinal end1"
    using pr(1-3) by (simp add: date_le_iff_toordinal)
  obtain ds where en: "enumerate_days start1 end1 = Inr ds"
    and len: "int (length ds) = days_between end1 start1 + 1"
    and el: "\<forall>i<length ds. valid_date (ds ! i) \<and> toordinal (ds ! i) = toordinal start1 + int i"
    using enumerate_days_ok [OF pr(1,2) le] by blast
  have g: "get_nepali_sowing_dates gcm today nep_range = enumerate_days start1 end1"
    unfolding get_dates_parsed [OF p] by (simp add: w sa ea and_then_def)
  have an: "(month start1, day start1) = start_anchor" "(month end1, day end1) = end_anchor"
    "year end1 = year today + (if fst end_anchor < fst start_anchor then 1 else 0)"
    using f by (simp_all add: sa ea)
  have days: "\<forall>i<length ds. date_add_days start1 (int i) = Inr (ds ! i)
      \<and> valid_date (ds ! i) \<and> toordinal (ds ! i) = toordinal start1 + int i"
    using el enumerate_days_nth [OF en] by blast
  show ?thesis
    using g f(1) an en enumerate_days_ends [OF pr(1,2) le en] len days by blast
qed

lemma windows_2024_01_01:
  "candidate_windows \<lparr>year = 2024, month = 1, day = 1\<rparr> (4, 14) (5, 15) =
     Inr ((\<lparr>year = 2024, month = 4, day = 14\<rparr>, \<lparr>year = 2024, month = 5, day = 15\<rparr>),
          (\<lparr>year = 2023, month = 4, day = 14\<rparr>, \<lparr>year = 2023, month = 5, day = 15\<rparr>))"
  by (simp add: candidate_windows_def and_then_def date_eval)

theorem C7_witness:
  "range_anchors no_close_matches (Str (lit ''Baisakh'' @ EN_DASH # lit ''Jestha'')) =
      Inr (Some ((4, 14), (5, 15)))
   \<and> candidate_windows \<lparr>year = 2024, month = 1, day = 1\<rparr> (4, 14) (5, 15) =
     Inr ((\<lparr>year = 2024, month = 4, day = 14\<rparr>, \<lparr>year = 2024, month = 5, day = 15\<rparr>),
          (\<lparr>year = 2023, month = 4, day = 14\<rparr>, \<lparr>year = 2023, month = 5, day = 15\<rparr>))
   \<and> \<not> (date_le \<lparr>year = 2024, month = 4, day = 14\<rparr> \<lparr>year = 2024, month = 1, day = 1\<rparr>
        \<and> date_le \<lparr>year = 2024, month = 1, day = 1\<rparr> \<lparr>year = 2024, month = 5, day = 15\<rparr>)
   \<and> \<not> (date_le \<lparr>year = 2023, month = 4, day = 14\<rparr> \<lparr>year = 2024, month = 1, day = 1\<rparr>
        \<and> date_le \<lparr>year = 2024, month = 1, day = 1\<rparr> \<lparr>year = 2023, month = 5, day = 15\<rparr>)
   \<and> get_nepali_sowing_dates no_close_matches \<lparr>year = 2024, month = 1, day = 1\<rparr>
        (Str (lit ''Baisakh'' @ EN_DASH # lit ''Jestha'')) =
      enumerate_days \<lparr>year = 2024, month = 4, day = 14\<rparr> \<lparr>year = 2024, month = 5, day = 15\<rparr>
   \<and> (\<exists>ds. enumerate_days \<lparr>year = 2024, month = 4, day = 14\<rparr>
              \<lparr>year = 2024, month = 5, day = 15\<rparr> = Inr ds
         \<and> ds \<noteq> [] \<and> hd ds = \<lparr>year = 2024, month = 4, day = 14\<rparr>
         \<and> last ds = \<lparr>year = 2024, month = 5, day = 15\<rparr>
         \<and> length ds = 32
         \<and> (\<forall>i<length ds.
               date_add_days \<lparr>year = 2024, month = 4, day = 14\<rparr> (int i) = Inr (ds ! i)
             \<and> valid_date (ds ! i)
             \<and> toordinal (ds ! i) = toordinal \<lparr>year = 2024, month = 4, day = 14\<rparr> + int i))"
proof -
  have o1: "\<not> (date_le \<lparr>year = 2024, month = 4, day = 14\<rparr> \<lparr>year = 2024, month = 1, day = 1\<rparr>
        \<and> date_le \<lparr>year = 2024, month = 1, day = 1\<rparr> \<lparr>year = 2024, month = 5, day = 15\<rparr>)"
    by (simp add: date_le_def)
  have o2: "\<not> (date_le \<lparr>year = 2023, month = 4, day = 14\<rparr> \<lparr>year = 2024, month = 1, day = 1\<rparr>
        \<and> date_le \<lparr>year = 2024, month = 1, day = 1\<rparr> \<lparr>year = 2023, month = 5, day = 15\<rparr>)"
    by (simp add: date_le_def)
  have d: "days_between \<lparr>year = 2024, month = 5, day = 15\<rparr> \<lparr>year = 2024, month = 4, day = 14\<rparr>
      = 31"
    by (simp add: days_between_def date_eval)
  have n: "int n = 31 + 1 \<longleftrightarrow> n = 32" for n :: nat by presburger
  show ?thesis
    using C7_out_of_season_fallback [OF anchors_baisakh_jestha windows_2024_01_01 o1 o2,
        of no_close_matches, unfolded d n]
      anchors_baisakh_jestha [of no_close_matches] windows_2024_01_01 o1 o2
    by blast
qed


text \<open>
  Claim C8. Every sequence returned for a successfully parsed range is the enumeration of
  the selected window: the window's start is not after its end, the sequence starts at
  the start and ends at the end, its length is the number of days between them plus one,
  and each element is the day after the one before it.
\<close>

theorem C8_sequence_invariants:
  assumes p: "range_anchors gcm nep_range = Inr (Some (start_anchor, end_anchor))"
    and g: "get_nepali_sowing_dates gcm today nep_range = Inr ds"
  shows "\<exists>start_date end_date.
           sowing_window today start_anchor end_anchor = Inr (start_date, end_date)
         \<and> date_le start_date end_date
         \<and> ds \<noteq> [] \<and> hd ds = start_date \<and> last ds = end_date
         \<and> int (length ds) = days_between end_date start_date + 1
         \<and> (\<forall>i. Suc i < length ds \<longrightarrow>
               days_between (ds ! Suc i) (ds ! i) = 1
             \<and> date_le (ds ! i) (ds ! Suc i) \<and> \<not> date_le (ds ! Suc i) (ds ! i)
             \<and> date_add_days (ds ! i) 1 = Inr (ds ! Suc i))"
proof -
  obtain sm sd em ed where sa: "start_anchor = (sm, sd)" and ea: "end_anchor = (em, ed)"
    by (cases start_anchor, cases end_anchor)
  from get_dates_window [OF p [unfolded sa ea] g] obtain s e where
    w: "sowing_window today (sm, sd) (em, ed) = Inr (s, e)"
    and en: "enumerate_days s e = Inr ds" and v: "valid_date s" "valid_date e"
    and dle: "date_le s e" and le: "toordinal s \<le> toordinal e"
    by blast
  note ends = enumerate_days_ends [OF v le en]
  obtain ds' where en': "enumerate_days s e = Inr ds'"
    and len': "int (length ds') = days_between e s + 1"
    and nth': "\<forall>i < length ds'. valid_date (ds' ! i) \<and> toordinal (ds' ! i) = toordinal s + int i"
    using enumerate_days_ok [OF v le] by blast
  have eq: "ds' = ds" using en en' by simp
  note len = len' [unfolded eq] and nth = nth' [unfolded eq]
  have step: "days_between (ds ! Suc i) (ds ! i) = 1
             \<and> date_le (ds ! i) (ds ! Suc i) \<and> \<not> date_le (ds ! Suc i) (ds ! i)
             \<and> date_add_days (ds ! i) 1 = Inr (ds ! Suc i)"
    if i: "Suc i < length ds" for i
  proof -
    have a: "valid_date (ds ! i)" "toordinal (ds ! i) = toordinal s + int i"
      and b: "valid_date (ds ! Suc i)" "toordinal (ds ! Suc i) = toordinal s + int (Suc i)"
      using nth i by simp_all
    have d: "days_between (ds ! Suc i) (ds ! i) = 1"
      using a b by (simp add: days_between_def)
    have o: "date_le (ds ! i) (ds ! Suc i)" "\<not> date_le (ds ! Suc i) (ds ! i)"
      using a b by (simp_all add: date_le_iff_toordinal)
    have "toordinal (ds ! i) + 1 \<le> 3652059"
      using toordinal_range(2) [OF b(1)] a(2) b(2) by simp
    then obtain dt where dt: "date_add_days (ds ! i) 1 = Inr dt" "valid_date dt"
      "toordinal dt = toordinal (ds ! i) + 1"
      using date_add_days_ok [OF a(1), of 1] by auto
    then have "dt = ds ! Suc i"
      using a b by (intro toordinal_inj) simp_all
    then show ?thesis using d o dt(1) by simp
  qed
  show ?thesis
    using w dle ends len step unfolding sa ea by blast
qed

theorem C8_witness:
  "range_anchors no_close_matches (Str (lit ''Baisakh'' @ EN_DASH # lit ''Jestha'')) =
      Inr (Some ((4, 14), (5, 15)))
   \<and> (\<exists>ds. get_nepali_sowing_dates no_close_matches \<lparr>year = 2024, month = 5, day = 1\<rparr>
              (Str (lit ''Baisakh'' @ EN_DASH # lit ''Jestha'')) = Inr ds
         \<and> (\<exists>start_date end_date.
               sowing_window \<lparr>year = 2024, month = 5, day = 1\<rparr> (4, 14) (5, 15) =
                 Inr (start_date, end_date)
             \<and> date_le start_date end_date
             \<and> ds \<noteq> [] \<and> hd ds = start_date \<and> last ds = end_date
             \<and> int (length ds) = days_between end_date start_date + 1
             \<and> (\<forall>i. Suc i < length ds \<longrightarrow>
                   days_between (ds ! Suc i) (ds ! i) = 1
                 \<and> date_le (ds ! i) (ds ! Suc i) \<and> \<not> date_le (ds ! Suc i) (ds ! i)
                 \<and> date_add_days (ds ! i) 1 = Inr (ds ! Suc i))))"
proof -
  obtain ds where g: "get_nepali_sowing_dates no_close_matches \<lparr>year = 2024, month = 5, day = 1\<rparr>
              (Str (lit ''Baisakh'' @ EN_DASH # lit ''Jestha'')) = Inr ds"
    using dates_baisakh_jestha_2024 [of no_close_matches] by blast
  show ?thesis
    using C8_sequence_invariants [OF anchors_baisakh_jestha g] g
      anchors_baisakh_jestha [of no_close_matches]
    by blast
qed

section \<open>Splitting and stripping\<close>

lemma py_split_nonempty: "py_split sep s \<noteq> []"
  by (induction s) (auto split: list.splits)

lemma py_split_no_sep: "sep \<notin> set s \<Longrightarrow> py_split sep s = [s]"
  by (induction s) auto

lemma py_split_length: "length (py_split sep s) = Suc (count_list s sep)"
  by (induction s) (auto split: list.splits simp: py_split_nonempty)

lemma py_split_short_iff: "length (py_split sep s) < 2 \<longleftrightarrow> sep \<notin> set s"
  by (simp add: py_split_length count_list_0_iff)

lemma py_split_append: "sep \<notin> set a \<Longrightarrow> py_split sep (a @ sep # t) = a # py_split sep t"
  by (induction a) auto

lemma py_split_ConsD:
  "py_split sep s = x # y # ys \<Longrightarrow> sep \<notin> set x \<and> (\<exists>t. s = x @ sep # t \<and> py_split sep t = y # ys)"
proof (induction s arbitrary: x)
  case Nil
  then show ?case by simp
next
  case (Cons c s)
  show ?case
  proof (cases "c = sep")
    case True
    then show ?thesis using Cons.prems by auto
  next
    case False
    then obtain x' where x: "x = c # x'" and s: "py_split sep s = x' # y # ys"
      using Cons.prems by (auto split: list.splits)
    then show ?thesis using Cons.IH [OF s] False by auto
  qed
qed

lemma hd_py_split: "hd (py_split sep s) = takeWhile (\<lambda>c. c \<noteq> sep) s"
  by (induction s) (auto split: list.splits simp: py_split_nonempty)

lemma startswith_append: "startswith y sub \<Longrightarrow> startswith (y @ z) sub"
  by (induction y sub rule: startswith.induct) auto

lemma contains_append_right: "contains y sub \<Longrightarrow> contains (y @ z) sub"
proof (induction y)
  case Nil
  then show ?case by (cases z) simp_all
next
  case (Cons c y)
  then show ?case using startswith_append [of "c # y" sub z] by auto
qed

lemma contains_append_left: "contains y sub \<Longrightarrow> contains (x @ y) sub"
proof (induction x)
  case Nil
  then show ?case by simp
next
  case (Cons c x)
  then show ?case by simp
qed

lemma startswith_set: "startswith s sub \<Longrightarrow> set sub \<subseteq> set s"
  by (induction s sub rule: startswith.induct) auto

lemma contains_set: "contains s sub \<Longrightarrow> set sub \<subseteq> set s"
proof (induction s)
  case Nil
  then show ?case by simp
next
  case (Cons c s)
  from Cons.prems consider "startswith (c # s) sub" | "contains s sub" by auto
  then show ?case
  proof cases
    case 1
    then show ?thesis by (rule startswith_set)
  next
    case 2
    then show ?thesis using Cons.IH by auto
  qed
qed

lemma py_strip_mid:
  assumes "\<not> isspace g"
  shows "py_strip (a @ g # b) = dropWhile isspace a @ g # rev (dropWhile isspace (rev b))"
  using assms by (simp add: py_strip_def dropWhile_append3)

lemma py_strip_lstrip: "py_strip (dropWhile isspace a) = py_strip a"
  by (simp add: py_strip_def)

lemma rstrip_decomp: "b = rev (dropWhile P (rev b)) @ rev (takeWhile P (rev b))"
  by (metis rev_append rev_rev_ident takeWhile_dropWhile_id)

lemma strip_commute:
  "dropWhile P (rev (dropWhile P (rev b))) = rev (dropWhile P (rev (dropWhile P b)))"
proof (cases "dropWhile P b")
  case Nil
  then have "\<forall>x\<in>set b. P x" by (simp add: dropWhile_eq_Nil_conv)
  then have d: "dropWhile P (rev b) = []" by simp
  show ?thesis unfolding Nil d by simp
next
  case (Cons x d)
  have nx: "\<not> P x" using Cons by (metis hd_dropWhile list.distinct(1) list.sel(1))
  have b: "b = takeWhile P b @ x # d" using Cons by (metis takeWhile_dropWhile_id)
  have w: "\<forall>c\<in>set (takeWhile P b). P c" by (auto dest: set_takeWhileD)
  have "dropWhile P (rev b) = dropWhile P (rev d) @ x # rev (takeWhile P b)"
    by (subst b) (simp add: dropWhile_append3 nx)
  then have "dropWhile P (rev (dropWhile P (rev b))) = x # rev (dropWhile P (rev d))"
    using w nx by (simp add: dropWhile_all)
  moreover have "rev (dropWhile P (rev (dropWhile P b))) = x # rev (dropWhile P (rev d))"
    using nx by (simp add: Cons dropWhile_append3)
  ultimately show ?thesis by simp
qed

lemma py_strip_rstrip: "py_strip (rev (dropWhile isspace (rev b))) = py_strip b"
  unfolding py_strip_def strip_commute [of isspace b] by simp

lemma py_strip_token_rstrip:
  assumes "\<not> isspace sep"
  shows "py_strip (takeWhile (\<lambda>c. c \<noteq> sep) (rev (dropWhile isspace (rev b)))) =
         py_strip (takeWhile (\<lambda>c. c \<noteq> sep) b)"
proof (cases "sep \<in> set b")
  case True
  then obtain p q where b: "b = p @ sep # q" and p: "sep \<notin> set p"
    by (meson split_list_first)
  have "rev (dropWhile isspace (rev b)) = p @ sep # rev (dropWhile isspace (rev q))"
    using assms by (simp add: b dropWhile_append3)
  then show ?thesis using p by (simp add: b takeWhile_tail)
next
  case False
  then have "sep \<notin> set (rev (dropWhile isspace (rev b)))"
    by (auto dest: set_dropWhileD)
  then have t2: "takeWhile (\<lambda>c. c \<noteq> sep) (rev (dropWhile isspace (rev b))) =
      rev (dropWhile isspace (rev b))"
    by (intro takeWhile_eq_all_conv [THEN iffD2]) auto
  have t1: "takeWhile (\<lambda>c. c \<noteq> sep) b = b"
    using False by (intro takeWhile_eq_all_conv [THEN iffD2]) auto
  show ?thesis unfolding t1 t2 by (rule py_strip_rstrip)
qed

section \<open>Separators\<close>

lemma en_dash_facts:
  "\<not> isspace EN_DASH" "dash_class EN_DASH" "lower_cp EN_DASH = [EN_DASH]"
  "\<not> isspace EM_DASH" "dash_class EM_DASH" "\<not> isspace MINUS_SIGN" "dash_class MINUS_SIGN"
  "\<not> dash_class HYPHEN" "\<not> isspace LPAREN"
  by (simp_all add: isspace_def dash_class_def lower_cp_def)

lemma re_sub_dash_elem: "c \<in> set (re_sub_dash x) \<Longrightarrow> c = EN_DASH \<or> \<not> dash_class c"
  by (auto simp: re_sub_dash_def split: if_splits)

lemma re_sub_dash_id: "\<forall>c\<in>set x. \<not> dash_class c \<Longrightarrow> re_sub_dash x = x"
  by (induction x) (simp_all add: re_sub_dash_def)

lemma re_sub_dash_mid:
  "dash_class g \<Longrightarrow> re_sub_dash (a @ g # b) = re_sub_dash a @ EN_DASH # re_sub_dash b"
  by (simp add: re_sub_dash_def)

lemma range_anchors_cong:
  assumes "r \<noteq> []" "r' \<noteq> []" "re_sub_dash (py_strip r) = re_sub_dash (py_strip r')"
  shows "range_anchors gcm (Str r) = range_anchors gcm (Str r')"
  using assms by (simp add: range_anchors_def)

lemma get_dates_cong:
  assumes "range_anchors gcm v = range_anchors gcm v'"
  shows "get_nepali_sowing_dates gcm today v = get_nepali_sowing_dates gcm today v'"
  using assms by (simp add: get_nepali_sowing_dates_def)

text \<open>
  The em-dash, the minus sign and the en-dash are members of the class and are
  interchangeable as separators; the ASCII hyphen is not a member.
\<close>

lemma dash_glyph_variants:
  assumes "g = EM_DASH \<or> g = MINUS_SIGN \<or> g = EN_DASH"
  shows "get_nepali_sowing_dates gcm today (Str (a @ g # b)) =
         get_nepali_sowing_dates gcm today (Str (a @ EN_DASH # b))"
proof -
  have g: "\<not> isspace g" "dash_class g" using assms en_dash_facts by auto
  have "re_sub_dash (py_strip (a @ g # b)) = re_sub_dash (py_strip (a @ EN_DASH # b))"
    by (simp add: py_strip_mid g en_dash_facts re_sub_dash_mid)
  then show ?thesis
    by (intro get_dates_cong range_anchors_cong) simp_all
qed

lemma no_dash_yields_empty:
  assumes "\<forall>c\<in>set r. \<not> dash_class c"
  shows "get_nepali_sowing_dates gcm today (Str r) = Inr []"
proof -
  have "set (py_strip r) \<subseteq> set r"
    by (auto simp: py_strip_def dest!: set_dropWhileD)
  then have "\<forall>c\<in>set (py_strip r). \<not> dash_class c" using assms by auto
  then have "re_sub_dash (py_strip r) = py_strip r" by (rule re_sub_dash_id)
  moreover have "EN_DASH \<notin> set (py_strip r)"
    using \<open>\<forall>c\<in>set (py_strip r). \<not> dash_class c\<close> en_dash_facts(2) by blast
  ultimately have "py_split EN_DASH (re_sub_dash (py_strip r)) = [py_strip r]"
    by (simp add: py_split_no_sep)
  then show ?thesis
    by (simp add: get_nepali_sowing_dates_def range_anchors_def and_then_def Let_def)
qed

text \<open>
  Claim C2 says that the four separator glyphs give identical results. The range written
  with the ASCII hyphen resolves to the empty sequence, the same range written with the
  en-dash to a window of 32 days.
\<close>

theorem C2_hyphen_is_not_a_separator:
  "get_nepali_sowing_dates no_close_matches \<lparr>year = 2024, month = 5, day = 1\<rparr>
      (Str (lit ''Baisakh-Jestha'')) = Inr []
   \<and> (\<exists>ds. get_nepali_sowing_dates no_close_matches \<lparr>year = 2024, month = 5, day = 1\<rparr>
          (Str (lit ''Baisakh'' @ EN_DASH # lit ''Jestha'')) = Inr ds \<and> length ds = 32)"
proof -
  have "\<forall>c\<in>set (lit ''Baisakh-Jestha''). \<not> dash_class c"
    by (simp add: lit_def dash_class_def)
  then show ?thesis
    using no_dash_yields_empty dates_baisakh_jestha_2024 [of no_close_matches] by blast
qed

text \<open>
  Claim C4, as amended. Whenever splitting on the canonical dash yields fewer than two
  segments, the resolver returns the empty sequence. This is the value the sentinel
  phrases give: no error is raised and the two outcomes cannot be told apart.
\<close>

theorem C4_short_split_yields_empty:
  assumes "length (py_split EN_DASH (re_sub_dash (py_strip r))) < 2"
  shows "get_nepali_sowing_dates gcm today (Str r) = Inr []
       \<and> get_nepali_sowing_dates gcm today (Str r) =
         get_nepali_sowing_dates gcm today (Str (lit ''n/a''))"
proof -
  have a: "get_nepali_sowing_dates gcm today (Str r) = Inr []"
    using assms
    by (simp add: get_nepali_sowing_dates_def range_anchors_def and_then_def Let_def)
  have b: "get_nepali_sowing_dates gcm today (Str (lit ''n/a'')) = Inr []"
    by (simp add: get_nepali_sowing_dates_def range_anchors_def and_then_def str_eval)
  show ?thesis using a b by simp
qed

theorem C4_witness:
  "length (py_split EN_DASH (re_sub_dash (py_strip (lit ''Baisakh'')))) < 2
   \<and> get_nepali_sowing_dates no_close_matches \<lparr>year = 2024, month = 5, day = 1\<rparr>
         (Str (lit ''Baisakh'')) = Inr []"
proof -
  have h: "length (py_split EN_DASH (re_sub_dash (py_strip (lit ''Baisakh'')))) < 2"
    by (simp add: str_eval)
  show ?thesis
    using h C4_short_split_yields_empty [OF h, of no_close_matches
        "\<lparr>year = 2024, month = 5, day = 1\<rparr>"]
    by simp
qed

theorem C4_counterexample:
  "\<not> is_sentinel (py_lower (re_sub_dash (py_strip (lit ''Baisakh''))))
   \<and> length (py_split EN_DASH (re_sub_dash (py_strip (lit ''Baisakh'')))) < 2
   \<and> get_nepali_sowing_dates no_close_matches \<lparr>year = 2024, month = 5, day = 1\<rparr>
         (Str (lit ''Baisakh'')) = Inr []"
  by (simp add: get_nepali_sowing_dates_def range_anchors_def and_then_def str_eval)

lemma literal_no_en_dash:
  "EN_DASH \<notin> set (lit ''n/a'')" "EN_DASH \<notin> set (lit ''na'')" "EN_DASH \<notin> set (lit ''none'')"
  "EN_DASH \<notin> set (lit ''not recommended'')"
  by (simp_all add: lit_def)

lemma not_sentinel_substring:
  assumes "\<not> is_sentinel (py_lower (u @ s @ v))" and "EN_DASH \<in> set s"
  shows "\<not> is_sentinel (py_lower s)"
proof
  assume "is_sentinel (py_lower s)"
  then consider (c) "contains (py_lower s) (lit ''not recommend'')"
    | (l) "py_lower s \<in> set [lit ''n/a'', lit ''na'', lit ''none'', lit ''not recommended'']"
    by (auto simp: is_sentinel_def)
  then show False
  proof cases
    case c
    then have "contains (py_lower u @ py_lower s @ py_lower v) (lit ''not recommend'')"
      by (intro contains_append_left contains_append_right)
    then show False using assms(1) by (simp add: is_sentinel_def py_lower_def)
  next
    case l
    have "EN_DASH \<in> set (py_lower s)"
      using assms(2) en_dash_facts(3) by (auto simp: py_lower_def intro!: bexI [of _ EN_DASH])
    then show False using l literal_no_en_dash by auto
  qed
qed

text \<open>
  Claim C10. When the dash-normalized string splits into more than two segments, the
  resolver takes the first segment as the start token and the second as the end token, and
  nothing after them has any effect: the result is the result for the first two segments
  alone, joined by one dash.
\<close>

theorem C10_extra_segments_ignored:
  assumes sp: "py_split EN_DASH (re_sub_dash (py_strip r)) = seg1 # seg2 # seg3 # segs"
    and ns: "\<not> is_sentinel (py_lower (re_sub_dash (py_strip r)))"
  shows "range_anchors gcm (Str r) =
           and_then (month_anchors gcm (py_strip seg1) (py_strip (hd (py_split LPAREN seg2))))
             (\<lambda>anchors. Inr (Some anchors))
       \<and> get_nepali_sowing_dates gcm today (Str r) =
         get_nepali_sowing_dates gcm today (Str (seg1 @ EN_DASH # seg2))"
proof -
  define s where "s = re_sub_dash (py_strip r)"
  let ?tok = "and_then (month_anchors gcm (py_strip seg1) (py_strip (hd (py_split LPAREN seg2))))
             (\<lambda>anchors. Inr (Some anchors))"
  have r: "r \<noteq> []" using sp by (cases r) (simp_all add: py_strip_def re_sub_dash_def)
  have first: "range_anchors gcm (Str r) = ?tok"
    using sp ns r by (simp add: range_anchors_def)
  obtain t where s1: "s = seg1 @ EN_DASH # t" and n1: "EN_DASH \<notin> set seg1"
    and t: "py_split EN_DASH t = seg2 # seg3 # segs"
    using py_split_ConsD [OF sp [folded s_def]] by blast
  obtain t' where t1: "t = seg2 @ EN_DASH # t'" and n2: "EN_DASH \<notin> set seg2"
    using py_split_ConsD [OF t] by blast
  have cls: "\<forall>c\<in>set seg1 \<union> set seg2. \<not> dash_class c"
  proof
    fix c assume c: "c \<in> set seg1 \<union> set seg2"
    then have "c \<in> set (re_sub_dash (py_strip r))"
      unfolding s_def [symmetric] s1 t1 by auto
    moreover have "c \<noteq> EN_DASH" using c n1 n2 by auto
    ultimately show "\<not> dash_class c" using re_sub_dash_elem by blast
  qed
  let ?l = "dropWhile isspace seg1" and ?r = "rev (dropWhile isspace (rev seg2))"
  let ?s' = "?l @ EN_DASH # ?r"
  have sub: "set ?l \<subseteq> set seg1" "set ?r \<subseteq> set seg2"
    by (auto dest: set_dropWhileD)
  have strip: "py_strip (seg1 @ EN_DASH # seg2) = ?s'"
    by (rule py_strip_mid) (rule en_dash_facts(1))
  have "\<forall>c\<in>set ?l. \<not> dash_class c" "\<forall>c\<in>set ?r. \<not> dash_class c"
    using cls sub by blast+
  then have s': "re_sub_dash (py_strip (seg1 @ EN_DASH # seg2)) = ?s'"
    unfolding strip by (simp add: re_sub_dash_mid en_dash_facts re_sub_dash_id)
  have nl: "EN_DASH \<notin> set ?l" "EN_DASH \<notin> set ?r"
    using n1 n2 sub by blast+
  have split': "py_split EN_DASH ?s' = [?l, ?r]"
    by (simp only: py_split_append [OF nl(1)] py_split_no_sep [OF nl(2)])
  have dec: "s = takeWhile isspace seg1 @ ?s' @ (rev (takeWhile isspace (rev seg2)) @ EN_DASH # t')"
  proof -
    have "seg1 = takeWhile isspace seg1 @ ?l" by simp
    moreover have "seg2 = ?r @ rev (takeWhile isspace (rev seg2))" by (rule rstrip_decomp)
    ultimately show ?thesis unfolding s1 t1 by (metis append.assoc append_Cons)
  qed
  have "\<not> is_sentinel (py_lower s)"
    unfolding s_def by (rule ns)
  then have ns0: "\<not> is_sentinel (py_lower (takeWhile isspace seg1 @ ?s' @
      (rev (takeWhile isspace (rev seg2)) @ EN_DASH # t')))"
    by (subst (asm) dec)
  have ns': "\<not> is_sentinel (py_lower ?s')"
    by (rule not_sentinel_substring [OF ns0]) simp
  have tok1: "py_strip ?l = py_strip seg1" by (rule py_strip_lstrip)
  have tok2: "py_strip (hd (py_split LPAREN ?r)) = py_strip (hd (py_split LPAREN seg2))"
    unfolding hd_py_split by (rule py_strip_token_rstrip) (rule en_dash_facts(9))
  have second: "range_anchors gcm (Str (seg1 @ EN_DASH # seg2)) = ?tok"
    using ns' by (simp add: range_anchors_def s' split' tok1 tok2)
  show ?thesis
    using first second by (simp add: get_nepali_sowing_dates_def)
qed

theorem C10_witness:
  "py_split EN_DASH (re_sub_dash (py_strip (lit ''Baisakh'' @ EN_DASH # lit ''Jestha'' @
        EN_DASH # lit ''Ashad''))) = [lit ''Baisakh'', lit ''Jestha'', lit ''Ashad'']
   \<and> \<not> is_sentinel (py_lower (re_sub_dash (py_strip (lit ''Baisakh'' @ EN_DASH #
        lit ''Jestha'' @ EN_DASH # lit ''Ashad''))))
   \<and> get_nepali_sowing_dates no_close_matches \<lparr>year = 2024, month = 5, day = 1\<rparr>
        (Str (lit ''Baisakh'' @ EN_DASH # lit ''Jestha'' @ EN_DASH # lit ''Ashad'')) =
      get_nepali_sowing_dates no_close_matches \<lparr>year = 2024, month = 5, day = 1\<rparr>
        (Str (lit ''Baisakh'' @ EN_DASH # lit ''Jestha''))
   \<and> (\<exists>ds. get_nepali_sowing_dates no_close_matches \<lparr>year = 2024, month = 5, day = 1\<rparr>
        (Str (lit ''Baisakh'' @ EN_DASH # lit ''Jestha'' @ EN_DASH # lit ''Ashad'')) = Inr ds
         \<and> length ds = 32)"
proof -
  have sp: "py_split EN_DASH (re_sub_dash (py_strip (lit ''Baisakh'' @ EN_DASH # lit ''Jestha'' @
        EN_DASH # lit ''Ashad''))) = lit ''Baisakh'' # lit ''Jestha'' # lit ''Ashad'' # []"
    by (simp add: str_eval)
  have ns: "\<not> is_sentinel (py_lower (re_sub_dash (py_strip (lit ''Baisakh'' @ EN_DASH #
        lit ''Jestha'' @ EN_DASH # lit ''Ashad''))))"
    by (simp add: str_eval)
  show ?thesis
    using C10_extra_segments_ignored [OF sp ns, of no_close_matches
        "\<lparr>year = 2024, month = 5, day = 1\<rparr>"]
      sp ns dates_baisakh_jestha_2024 [of no_close_matches]
    by auto
qed




section \<open>The batch\<close>

lemma crops_loop_ok:
  assumes "\<forall>p\<in>set rows. \<exists>ds. get_nepali_sowing_dates gcm today (snd p) = Inr ds"
  shows "\<exists>crops. crops_loop gcm today rows result = (Some crops, None)
           \<and> dom crops = dom result \<union> (\<lambda>p. crop_key (fst p)) ` set rows"
  using assms
proof (induction rows arbitrary: result)
  case Nil
  then show ?case by simp
next
  case (Cons p rows)
  obtain r v where p: "p = (r, v)" by (cases p)
  obtain ds where ds: "get_nepali_sowing_dates gcm today v = Inr ds"
    using Cons.prems p by auto
  have "\<forall>p\<in>set rows. \<exists>ds. get_nepali_sowing_dates gcm today (snd p) = Inr ds"
    using Cons.prems by simp
  from Cons.IH [OF this, of "result(crop_key r \<mapsto> ds)"]
  obtain crops where c: "crops_loop gcm today rows (result(crop_key r \<mapsto> ds)) = (Some crops, None)"
    and d: "dom crops = dom (result(crop_key r \<mapsto> ds)) \<union> (\<lambda>p. crop_key (fst p)) ` set rows"
    by blast
  have "crops_loop gcm today (p # rows) result = (Some crops, None)"
    by (simp add: p ds c)
  moreover have "dom crops = dom result \<union> (\<lambda>p. crop_key (fst p)) ` set (p # rows)"
    unfolding d by (auto simp: p)
  ultimately show ?case by blast
qed

lemma crops_loop_fail:
  assumes "\<forall>p\<in>set before. \<exists>ds. get_nepali_sowing_dates gcm today (snd p) = Inr ds"
    and "get_nepali_sowing_dates gcm today v = Inl e"
  shows "crops_loop gcm today (before @ (r, v) # after) result =
           (None, Some (ErrorParsing v e))"
  using assms
proof (induction before arbitrary: result)
  case Nil
  then show ?case by simp
next
  case (Cons p before)
  obtain r' v' where p: "p = (r', v')" by (cases p)
  obtain ds where ds: "get_nepali_sowing_dates gcm today v' = Inr ds"
    using Cons.prems p by auto
  show ?case using Cons by (simp add: p ds)
qed

text \<open>
  Claim C1, as amended. The batch runs over the rows of the chosen column in order and
  stops at the first row whose range raises: the call returns no result at all, only the
  message that names this range and its error, whatever the rows before and after it
  hold. Only when no row raises does it return a result, and then the result has an
  entry for the key of every row.
\<close>

theorem C1_batch_stops_at_first_failure:
  assumes col: "sowing_column (py_lower place_name) = Some col"
  shows "(\<forall>before r v after e.
            notna_rows col df = before @ (r, v) # after \<longrightarrow>
            (\<forall>p\<in>set before. \<exists>ds. get_nepali_sowing_dates gcm today (snd p) = Inr ds) \<longrightarrow>
            get_nepali_sowing_dates gcm today v = Inl e \<longrightarrow>
            get_crops_for_place gcm today df place_name = (None, Some (ErrorParsing v e)))
       \<and> ((\<forall>p\<in>set (notna_rows col df).
               \<exists>ds. get_nepali_sowing_dates gcm today (snd p) = Inr ds) \<longrightarrow>
            (\<exists>crops. get_crops_for_place gcm today df place_name = (Some crops, None)
               \<and> dom crops = (\<lambda>p. crop_key (fst p)) ` set (notna_rows col df)))"
proof (intro conjI allI impI)
  fix before r v after e
  assume "notna_rows col df = before @ (r, v) # after"
    and "\<forall>p\<in>set before. \<exists>ds. get_nepali_sowing_dates gcm today (snd p) = Inr ds"
    and "get_nepali_sowing_dates gcm today v = Inl e"
  then show "get_crops_for_place gcm today df place_name = (None, Some (ErrorParsing v e))"
    by (simp add: get_crops_for_place_def col crops_loop_fail)
next
  assume "\<forall>p\<in>set (notna_rows col df). \<exists>ds. get_nepali_sowing_dates gcm today (snd p) = Inr ds"
  from crops_loop_ok [OF this, of Map.empty]
  show "\<exists>crops. get_crops_for_place gcm today df place_name = (Some crops, None)
               \<and> dom crops = (\<lambda>p. crop_key (fst p)) ` set (notna_rows col df)"
    by (simp add: get_crops_for_place_def col)
qed

lemma terai_column: "sowing_column (py_lower (lit ''Terai'')) = Some Terai_Bensi_Sowing"
  by (simp add: sowing_column_def py_lower_def lower_cp_def lit_def)

lemma empty_start_token:
  "get_nepali_sowing_dates gcm today (Str (EN_DASH # lit ''Jestha'')) = Inl EmptyMonthName"
  by (simp add: get_nepali_sowing_dates_def range_anchors_def month_anchors_def
      normalize_nepali_month_def and_then_def str_eval)

theorem C1_witness:
  "sowing_column (py_lower (lit ''Terai'')) = Some Terai_Bensi_Sowing
   \<and> get_crops_for_place no_close_matches \<lparr>year = 2024, month = 5, day = 1\<rparr>
       [\<lparr>Crop = lit ''Rice'', Variety = lit ''A'', High_Hill_Sowing = None,
          Mid_Hill_Sowing = None, Terai_Bensi_Sowing = Some (Str (EN_DASH # lit ''Jestha''))\<rparr>,
        \<lparr>Crop = lit ''Maize'', Variety = lit ''B'', High_Hill_Sowing = None,
          Mid_Hill_Sowing = None,
          Terai_Bensi_Sowing = Some (Str (lit ''Baisakh'' @ EN_DASH # lit ''Jestha''))\<rparr>]
       (lit ''Terai'') =
     (None, Some (ErrorParsing (Str (EN_DASH # lit ''Jestha'')) EmptyMonthName))"
proof -
  let ?r1 = "\<lparr>Crop = lit ''Rice'', Variety = lit ''A'', High_Hill_Sowing = None,
          Mid_Hill_Sowing = None, Terai_Bensi_Sowing = Some (Str (EN_DASH # lit ''Jestha''))\<rparr>"
  let ?r2 = "\<lparr>Crop = lit ''Maize'', Variety = lit ''B'', High_Hill_Sowing = None,
          Mid_Hill_Sowing = None,
          Terai_Bensi_Sowing = Some (Str (lit ''Baisakh'' @ EN_DASH # lit ''Jestha''))\<rparr>"
  have n: "notna_rows Terai_Bensi_Sowing [?r1, ?r2] =
      [] @ (?r1, Str (EN_DASH # lit ''Jestha'')) #
        [(?r2, Str (lit ''Baisakh'' @ EN_DASH # lit ''Jestha''))]"
    by (simp add: notna_rows_def)
  have b: "\<forall>p\<in>set []. \<exists>ds. get_nepali_sowing_dates no_close_matches
      \<lparr>year = 2024, month = 5, day = 1\<rparr> (snd p) = Inr ds"
    by simp
  from C1_batch_stops_at_first_failure [OF terai_column, of "[?r1, ?r2]" no_close_matches
      "\<lparr>year = 2024, month = 5, day = 1\<rparr>", THEN conjunct1, THEN spec, THEN spec, THEN spec,
      THEN spec, THEN spec, THEN mp, THEN mp, THEN mp, OF n b empty_start_token]
  show ?thesis using terai_column by simp
qed

text \<open>
  Claim C1 says that a failure on one crop's range leaves the other crops in the result.
  In a table of two rows, the first with an empty start month and the second with a good
  range, the call returns no result and one error; the second row alone gives a result
  and no error.
\<close>

theorem C1_counterexample:
  "get_crops_for_place no_close_matches \<lparr>year = 2024, month = 5, day = 1\<rparr>
       [\<lparr>Crop = lit ''Rice'', Variety = lit ''A'', High_Hill_Sowing = None,
          Mid_Hill_Sowing = None, Terai_Bensi_Sowing = Some (Str (EN_DASH # lit ''Jestha''))\<rparr>,
        \<lparr>Crop = lit ''Maize'', Variety = lit ''B'', High_Hill_Sowing = None,
          Mid_Hill_Sowing = None,
          Terai_Bensi_Sowing = Some (Str (lit ''Baisakh'' @ EN_DASH # lit ''Jestha''))\<rparr>]
       (lit ''Terai'') =
     (None, Some (ErrorParsing (Str (EN_DASH # lit ''Jestha'')) EmptyMonthName))
   \<and> snd (get_crops_for_place no_close_matches \<lparr>year = 2024, month = 5, day = 1\<rparr>
       [\<lparr>Crop = lit ''Maize'', Variety = lit ''B'', High_Hill_Sowing = None,
          Mid_Hill_Sowing = None,
          Terai_Bensi_Sowing = Some (Str (lit ''Baisakh'' @ EN_DASH # lit ''Jestha''))\<rparr>]
       (lit ''Terai'')) = None"
proof -
  obtain ds where ds: "get_nepali_sowing_dates no_close_matches
      \<lparr>year = 2024, month = 5, day = 1\<rparr> (Str (lit ''Baisakh'' @ EN_DASH # lit ''Jestha'')) = Inr ds"
    using dates_baisakh_jestha_2024 [of no_close_matches] by blast
  show ?thesis
    by (simp add: get_crops_for_place_def terai_column notna_rows_def empty_start_token ds)
qed

end
